theory Spec2Isabelle
  imports Main "HOL-Library.Word"
begin

unbundle bit_operations_syntax

section \<open>The circular allocator of circalloc/alloctest.c\<close>

text \<open>
  The prototype keeps one global byte array \<open>buffer\<close> of \<open>BUFFSIZE\<close> bytes and two
  global \<open>uint32_t\<close> indices \<open>head\<close> and \<open>tail\<close>. Every block starts with a
  \<open>struct hdr\<close> (a \<open>uint8_t free\<close> and a \<open>uint32_t len\<close>, 8 bytes with padding).
  The model keeps the headers that the code reads and writes through \<open>struct hdr *\<close>:
  the buffer is a function from the byte offset of a header (relative to \<open>buffer\<close>) to the
  header stored there. Two headers whose offsets differ by less than 8 would overlap in
  the C array, and a header at an offset above \<open>BUFFSIZE - 8\<close> would not lie inside it.
  The model is the C array exactly where headers stand at multiples of 16 inside the
  buffer: the theorems about \<open>circalloc\<close> assume a head that is a multiple of 16, and
  every state reached from an empty allocator has one (proved below), so the model and
  the array agree on every header the allocator touches. Payload bytes are
  never read or written by the allocator and are not modelled. Pointers are byte offsets
  relative to \<open>buffer\<close>; \<open>NULL\<close> is \<open>None\<close>.
\<close>

type_synonym u8 = "8 word"
type_synonym u32 = "32 word"
type_synonym u64 = "64 word"

definition BUFFSIZE :: u32 where
  "BUFFSIZE = 2048"

definition HDR_FREE :: u8 where
  "HDR_FREE = 0"

definition HDR_INUSE :: u8 where
  "HDR_INUSE = 1"

definition HDR_GAP :: u8 where
  "HDR_GAP = 2"

record hdr =
  free :: u8
  len :: u32

text \<open>\<open>sizeof(struct hdr)\<close>: one byte, three bytes of padding, four bytes of length.\<close>

definition sizeof_hdr :: int where
  "sizeof_hdr = 8"

record state =
  buffer :: "int \<Rightarrow> hdr"
  head :: u32
  tail :: u32

text \<open>\<open>avail\<close>: all arithmetic is \<open>uint32_t\<close>, the comparison unsigned.\<close>

definition avail :: "state \<Rightarrow> u32" where
  "avail s = (if head s \<ge> tail s then BUFFSIZE - head s + tail s else tail s - head s)"

text \<open>
  \<open>circallocblock\<close>: writes a header at \<open>buffer + head\<close> and moves the head. The
  8-byte store of the C code lies inside the array for every head that is a multiple of
  16 below \<open>BUFFSIZE\<close>; for a head above \<open>BUFFSIZE - 8\<close> it would run past the end
  of the array, which the model does not describe.
\<close>

definition circallocblock :: "state \<Rightarrow> u32 \<Rightarrow> u8 \<Rightarrow> state" where
  "circallocblock s sz hdr_free =
     (if sz = 0 then s
      else s\<lparr>buffer := (buffer s)(uint (head s) := \<lparr>free = hdr_free, len = sz\<rparr>),
             head := (head s + sz) mod BUFFSIZE\<rparr>)"

text \<open>
  The block size \<open>(size + sizeof(struct hdr) + 0xF) & ~0xF\<close> is computed in \<open>size_t\<close>
  (64 bits on the platform the tests were run on) and then stored in an \<open>int\<close>.
\<close>

definition block_size_of :: "u32 \<Rightarrow> u32" where
  "block_size_of sz = ucast (((ucast sz :: u64) + 8 + 0xF) AND NOT 0xF)"

text \<open>
  \<open>circalloc\<close>. The locals \<open>offset\<close>, \<open>rem\<close> and \<open>block_size\<close> are \<open>int\<close>; every
  comparison they take part in has a \<open>uint32_t\<close> operand and is therefore unsigned, and
  \<open>block_size + rem\<close> is a 32-bit sum. The result is the returned pointer (as an offset
  from \<open>buffer\<close>) and the new state.
\<close>

definition wraps :: "state \<Rightarrow> u32 \<Rightarrow> bool" where
  "wraps s block_size \<longleftrightarrow> head s \<ge> tail s \<and> BUFFSIZE - head s < block_size"

definition circalloc :: "state \<Rightarrow> u32 \<Rightarrow> int option \<times> state" where
  "circalloc s sz =
     (let block_size = block_size_of sz;
          rem = (if wraps s block_size then BUFFSIZE - head s else 0);
          offset = (if wraps s block_size then 0 else head s)
      in if avail s \<le> block_size + rem then (None, s)
         else (Some (sint offset + sizeof_hdr),
               circallocblock (circallocblock s rem HDR_GAP) block_size HDR_INUSE))"

text \<open>
  \<open>circfree\<close>. The \<open>do ... while (head != tail)\<close> loop may run forever (the source
  says so for a corrupted structure), so it is a partial function: \<open>None\<close> means that
  the loop does not return. One call of \<open>circfree_loop\<close> is one execution of the loop
  body followed by the loop test; \<open>meta\<close> and \<open>gmeta\<close> are header offsets.
  \<open>case_free_tail\<close> is the value of \<open>tail\<close> after the two assignments of
  \<open>case HDR_FREE\<close>.
\<close>

definition case_free_tail :: "state \<Rightarrow> int \<Rightarrow> int option \<Rightarrow> u32" where
  "case_free_tail s meta gmeta =
     ((case gmeta of None \<Rightarrow> tail s | Some g \<Rightarrow> (tail s + len (buffer s g)) mod BUFFSIZE)
      + len (buffer s meta)) mod BUFFSIZE"

partial_function (option) circfree_loop :: "state \<Rightarrow> int \<Rightarrow> int option \<Rightarrow> state option" where
  "circfree_loop s meta gmeta =
     (if free (buffer s meta) = HDR_INUSE then Some s
      else if free (buffer s meta) = HDR_GAP then
        (if head s \<noteq> tail s
         then circfree_loop s (sint ((tail s + len (buffer s meta)) mod BUFFSIZE)) (Some meta)
         else Some s)
      else if free (buffer s meta) = HDR_FREE then
        (let s' = s\<lparr>tail := case_free_tail s meta gmeta\<rparr>
         in if head s' \<noteq> tail s' then circfree_loop s' (uint (tail s')) None else Some s')
      else if head s \<noteq> tail s then circfree_loop s meta gmeta else Some s)"

declare circfree_loop.simps [code]

definition circfree :: "state \<Rightarrow> int \<Rightarrow> state option" where
  "circfree s addr =
     circfree_loop
       (s\<lparr>buffer := (buffer s)(addr - sizeof_hdr := (buffer s (addr - sizeof_hdr))\<lparr>free := HDR_FREE\<rparr>)\<rparr>)
       (uint (tail s)) None"

text \<open>
  The globals of a C program start zeroed; \<open>testreset\<close> of the test program sets
  \<open>head\<close> and \<open>tail\<close> to 0 and leaves the buffer as it is.
\<close>

definition init_state :: state where
  "init_state = \<lparr>buffer = (\<lambda>_. \<lparr>free = 0, len = 0\<rparr>), head = 0, tail = 0\<rparr>"

definition testreset :: "state \<Rightarrow> state" where
  "testreset s = s\<lparr>head := 0, tail := 0\<rparr>"

section \<open>Notions of the specification\<close>

text \<open>Both indices lie inside the buffer.\<close>

definition valid_state :: "state \<Rightarrow> bool" where
  "valid_state s \<longleftrightarrow> head s < BUFFSIZE \<and> tail s < BUFFSIZE"

text \<open>
  Request sizes for which \<open>block_size\<close> and \<open>block_size + rem\<close> are positive values
  of an \<open>int\<close>, so that no signed overflow occurs in \<open>circalloc\<close>. The specification
  asks for \<open>size \<le> N_B - 16\<close>, which is far inside this range.
\<close>

definition size_ok :: "u32 \<Rightarrow> bool" where
  "size_ok sz \<longleftrightarrow> uint sz < 2 ^ 31 - 2 ^ 12"

text \<open>\<open>round_up\<close> and the block length \<open>nsize\<close> as the specification words them.\<close>

definition round_up :: "int \<Rightarrow> int \<Rightarrow> int" where
  "round_up n a = (n + a - 1) div a * a"

definition nsize_spec :: "int \<Rightarrow> int" where
  "nsize_spec sz = round_up sz 16 + 16"

text \<open>
  The held length \<open>L_B\<close>: the prototype has no length field; the bytes between tail and
  head, going forward around the ring, are the held ones (none when \<open>head = tail\<close>).
  \<open>N_B\<close> is \<open>BUFFSIZE\<close>.
\<close>

definition N_B :: int where
  "N_B = uint BUFFSIZE"

definition L_B :: "state \<Rightarrow> int" where
  "L_B s = (uint (head s) - uint (tail s)) mod N_B"

text \<open>
  The total reservation \<open>rsize\<close> of the specification, with the block length the code
  computes: the block, plus the wrap gap \<open>N_B - head\<close> when the head has not wrapped past
  the tail and the block does not fit before the physical end.
\<close>

definition rsize :: "state \<Rightarrow> u32 \<Rightarrow> int" where
  "rsize s sz =
     (if uint (tail s) \<le> uint (head s) \<and> N_B - uint (head s) < uint (block_size_of sz)
      then (N_B - uint (head s)) + uint (block_size_of sz)
      else uint (block_size_of sz))"

text \<open>
  States of the test program: tests 4 and 5 preload \<open>head = tail = BUFFSIZE - 48\<close>; in
  test 6 the indices stand at \<open>head = 0x190\<close>, \<open>tail = 0x200\<close> before the fourth
  allocation.
\<close>

definition preload :: "u32 \<Rightarrow> state" where
  "preload h = init_state\<lparr>head := h, tail := h\<rparr>"

definition nearly_full :: state where
  "nearly_full = init_state\<lparr>head := 0x190, tail := 0x200\<rparr>"

section \<open>The chain of blocks between tail and head\<close>

text \<open>
  The blocks that are outstanding (in use, freed but not yet retired, or gap) lie one
  after the other from the tail to the head, each found from its predecessor through the
  length in its header. \<open>chain B a xs e\<close> says that \<open>xs\<close> are the offsets of such a
  sequence of blocks in the buffer \<open>B\<close>, the first at \<open>a\<close>, the last ending at \<open>e\<close>
  (modulo the buffer size). A block is in order when its offset and its length are
  multiples of 16, the length is positive, the block ends inside the buffer, and the flag
  is one of the three the code knows.
\<close>

definition block_ok :: "(int \<Rightarrow> hdr) \<Rightarrow> int \<Rightarrow> bool" where
  "block_ok B x \<longleftrightarrow>
     0 \<le> x \<and> 16 dvd x \<and> 0 < uint (len (B x)) \<and> 16 dvd uint (len (B x))
     \<and> x + uint (len (B x)) \<le> N_B \<and> free (B x) \<in> {HDR_FREE, HDR_INUSE, HDR_GAP}"

fun chain :: "(int \<Rightarrow> hdr) \<Rightarrow> int \<Rightarrow> int list \<Rightarrow> int \<Rightarrow> bool" where
  "chain B a [] e \<longleftrightarrow> a = e"
| "chain B a (x # xs) e \<longleftrightarrow>
     x = a \<and> block_ok B x \<and> chain B ((x + uint (len (B x))) mod N_B) xs e"

text \<open>The bytes held by a sequence of blocks.\<close>

definition span :: "(int \<Rightarrow> hdr) \<Rightarrow> int list \<Rightarrow> int" where
  "span B xs = sum_list (map (\<lambda>x. uint (len (B x))) xs)"

text \<open>A gap block is always followed by a block that is not a gap.\<close>

fun gaps_ok :: "(int \<Rightarrow> hdr) \<Rightarrow> int list \<Rightarrow> bool" where
  "gaps_ok B [] \<longleftrightarrow> True"
| "gaps_ok B [x] \<longleftrightarrow> free (B x) \<noteq> HDR_GAP"
| "gaps_ok B (x # y # xs) \<longleftrightarrow>
     (free (B x) = HDR_GAP \<longrightarrow> free (B y) \<noteq> HDR_GAP) \<and> gaps_ok B (y # xs)"

text \<open>
  The first block that is not a gap is in use: nothing at the tail waits to be retired.
\<close>

fun tail_clean :: "(int \<Rightarrow> hdr) \<Rightarrow> int list \<Rightarrow> bool" where
  "tail_clean B [] \<longleftrightarrow> True"
| "tail_clean B [x] \<longleftrightarrow> free (B x) = HDR_INUSE"
| "tail_clean B (x # y # xs) \<longleftrightarrow>
     free (B x) = HDR_INUSE \<or> (free (B x) = HDR_GAP \<and> free (B y) = HDR_INUSE)"

text \<open>
  The state is well formed with outstanding blocks \<open>bs\<close>: both indices are multiples of
  16 inside the buffer, the blocks form a chain from the tail to the head, and they hold
  less than the whole buffer.
\<close>

definition well_formed :: "state \<Rightarrow> int list \<Rightarrow> bool" where
  "well_formed s bs \<longleftrightarrow>
     valid_state s \<and> 16 dvd uint (head s) \<and> 16 dvd uint (tail s)
     \<and> chain (buffer s) (uint (tail s)) bs (uint (head s))
     \<and> span (buffer s) bs < N_B
     \<and> gaps_ok (buffer s) bs \<and> tail_clean (buffer s) bs"

text \<open>
  The blocks that remain after the loop of \<open>circfree\<close> has retired what it can: leading
  freed blocks go, a leading gap goes together with a freed block behind it.
\<close>

fun retire :: "(int \<Rightarrow> hdr) \<Rightarrow> int list \<Rightarrow> int list" where
  "retire B [] = []"
| "retire B [x] = (if free (B x) = HDR_FREE then [] else [x])"
| "retire B (x # y # xs) =
     (if free (B x) = HDR_FREE then retire B (y # xs)
      else if free (B x) = HDR_GAP \<and> free (B y) = HDR_FREE then retire B xs
      else x # y # xs)"

text \<open>The offset at which a sequence of blocks starts; \<open>e\<close> when there is none.\<close>

fun start_of :: "int list \<Rightarrow> int \<Rightarrow> int" where
  "start_of [] e = e"
| "start_of (x # xs) e = x"

text \<open>
  \<open>mark_free\<close> is the first statement of \<open>circfree\<close> on the buffer; the pointers the
  caller may free are those of the blocks in use.
\<close>

definition mark_free :: "(int \<Rightarrow> hdr) \<Rightarrow> int \<Rightarrow> (int \<Rightarrow> hdr)" where
  "mark_free B addr = B(addr - sizeof_hdr := (B (addr - sizeof_hdr))\<lparr>free := HDR_FREE\<rparr>)"

definition live_ptrs :: "(int \<Rightarrow> hdr) \<Rightarrow> int list \<Rightarrow> int set" where
  "live_ptrs B bs = {x + sizeof_hdr | x. x \<in> set bs \<and> free (B x) = HDR_INUSE}"

text \<open>
  The offset of the block at the tail that belongs to a caller: the block at \<open>tail\<close>,
  or the one behind it when a gap block stands at \<open>tail\<close>.
\<close>

definition tail_block :: "state \<Rightarrow> int" where
  "tail_block s =
     (if free (buffer s (uint (tail s))) = HDR_GAP
      then (uint (tail s) + uint (len (buffer s (uint (tail s))))) mod N_B
      else uint (tail s))"

section \<open>Sequences of calls\<close>

text \<open>
  A caller issues allocations and frees. It holds the pointers that \<open>circalloc\<close> has
  returned and that it has not yet freed; freeing anything else, or asking for a size out
  of range, is a misuse. A call of \<open>circfree\<close> that does not return hangs the run.
\<close>

datatype op = Alloc u32 | Free int

datatype outcome = Done state "int set" | Misuse | Hang

fun exec :: "state \<Rightarrow> int set \<Rightarrow> op list \<Rightarrow> outcome" where
  "exec s L [] = Done s L"
| "exec s L (Alloc sz # ops) =
     (if \<not> size_ok sz then Misuse
      else case circalloc s sz of
             (None, s') \<Rightarrow> exec s' L ops
           | (Some p, s') \<Rightarrow> exec s' (insert p L) ops)"
| "exec s L (Free p # ops) =
     (if p \<notin> L then Misuse
      else case circfree s p of
             None \<Rightarrow> Hang
           | Some s' \<Rightarrow> exec s' (L - {p}) ops)"

text \<open>The empty allocator: head and tail coincide at a multiple of 16 inside the buffer.\<close>

definition empty_state :: "state \<Rightarrow> bool" where
  "empty_state s \<longleftrightarrow> head s = tail s \<and> head s < BUFFSIZE \<and> 16 dvd uint (head s)"

text \<open>
  The caller's pointers and the allocator agree: some chain of blocks makes the state well
  formed, and the pointers held are exactly those of its blocks in use.
\<close>

definition consistent :: "state \<Rightarrow> int set \<Rightarrow> bool" where
  "consistent s L \<longleftrightarrow> (\<exists>bs. well_formed s bs \<and> L = live_ptrs (buffer s) bs)"

section \<open>Word arithmetic of the allocator\<close>

lemma and_not_15_minus: "(x::'a::len word) AND NOT 0xF = x - (x AND 0xF)"
proof -
  have "NOT x AND (x AND 0xF) = 0"
    by (simp add: bit_eq_iff bit_simps)
  then have "x - (x AND 0xF) = x AND NOT (x AND 0xF)"
    by (rule disjunctive_diff_eq_and_not)
  also have "\<dots> = x AND NOT 0xF"
    by (auto simp add: bit_eq_iff bit_simps)
  finally show ?thesis by simp
qed

lemma uint_and_15: "uint ((x::'a::len word) AND 0xF) = uint x mod 16"
proof -
  have "(0xF :: 'a word) = mask 4" by (simp add: mask_eq_exp_minus_1)
  then have "x AND 0xF = take_bit 4 x" by (simp only: take_bit_eq_mask)
  then have "uint (x AND 0xF) = uint (take_bit 4 x)" by (rule arg_cong)
  also have "\<dots> = uint x mod 16" by (simp only: unsigned_take_bit_eq) (simp add: take_bit_eq_mod)
  finally show ?thesis .
qed

lemma uint_and_not_15: "uint ((x::'a::len word) AND NOT 0xF) = uint x div 16 * 16"
proof -
  have "uint (x AND 0xF) \<le> uint x" using zmod_le_nonneg_dividend [of "uint x" 16] by (simp only: uint_and_15) simp
  then have "uint (x - (x AND 0xF)) = uint x - uint (x AND 0xF)"
    by (simp only: uint_sub_lem)
  then have "uint (x AND NOT 0xF) = uint x - uint x mod 16"
    by (simp only: and_not_15_minus uint_and_15)
  then show ?thesis
    by (simp only: minus_mod_eq_div_mult)
qed

lemma uint_block_size_of: "uint (block_size_of sz) = ((uint sz + 23) div 16 * 16) mod 2 ^ 32"
proof -
  have "uint ((ucast sz :: u64) + 8 + 0xF) = uint sz + 23"
    using uint_lt2p [of sz] by (simp add: uint_word_ariths uint_up_ucast is_up) 
  then have "uint (((ucast sz :: u64) + 8 + 0xF) AND NOT 0xF) = (uint sz + 23) div 16 * 16"
    by (simp only: uint_and_not_15)
  then show ?thesis
    unfolding block_size_of_def by (simp only: unsigned_ucast_eq take_bit_eq_mod) simp
qed

lemma uint_BUFFSIZE: "uint BUFFSIZE = 2048" by (simp add: BUFFSIZE_def)

lemma valid_state_uint: "valid_state s \<longleftrightarrow> uint (head s) < 2048 \<and> uint (tail s) < 2048"
  by (simp add: valid_state_def word_less_def uint_BUFFSIZE)

lemma mod_neg_wrap: "- m \<le> x \<Longrightarrow> x < 0 \<Longrightarrow> x mod m = x + m" for x m :: int
proof -
  assume a: "- m \<le> x" "x < 0"
  have "(x + m) mod m = x + m"
    by (rule mod_pos_pos_trivial) (use a in simp_all)
  then show ?thesis by simp
qed

lemma uint_avail: "valid_state s \<Longrightarrow> uint (avail s) = N_B - L_B s"
proof -
  assume v: "valid_state s"
  define h t where "h = uint (head s)" and "t = uint (tail s)"
  have b: "0 \<le> h" "h < 2048" "0 \<le> t" "t < 2048"
    using v by (simp_all add: h_def t_def valid_state_uint)
  have eq: "uint (avail s) = (if t \<le> h then ((2048 - h) mod 2 ^ 32 + t) mod 2 ^ 32 else (t - h) mod 2 ^ 32)"
    by (simp add: avail_def word_le_def uint_BUFFSIZE uint_word_ariths h_def t_def)
  have "uint (avail s) = 2048 - (h - t) mod 2048"
  proof (cases "t \<le> h")
    case True
    then have "(h - t) mod 2048 = h - t"
      using b by (simp add: mod_pos_pos_trivial)
    then show ?thesis
      using b True eq by (simp add: mod_pos_pos_trivial)
  next
    case False
    then have "(h - t) mod 2048 = h - t + 2048"
      using b by (simp add: mod_neg_wrap)
    then show ?thesis
      using b False eq by (simp add: mod_pos_pos_trivial)
  qed
  then show ?thesis by (simp add: L_B_def N_B_def uint_BUFFSIZE h_def t_def)
qed

lemma block_size_of_ok:
  assumes "uint sz \<le> 2 ^ 31 - 24"
  shows "uint (block_size_of sz) = (uint sz + 23) div 16 * 16"
proof -
  have a: "uint sz \<le> 2147483624" using assms by simp
  have "0 \<le> (uint sz + 23) div 16 * 16" "(uint sz + 23) div 16 * 16 < 4294967296"
    using a uint_ge_0 [of sz] by presburger+
  then show ?thesis
    by (simp add: uint_block_size_of)
qed


lemma sint_eq_uint_pos: "uint (w::u32) < 2 ^ 31 \<Longrightarrow> sint w = uint w"
proof -
  assume a: "uint w < 2 ^ 31"
  have "signed_take_bit 31 (uint w) = uint w"
  proof (rule signed_take_bit_int_eq_self)
    show "- (2 ^ 31) \<le> uint w" by (rule order_trans [where y = 0]) simp_all
    show "uint w < 2 ^ 31" by (rule a)
  qed
  then show ?thesis by (simp add: sint_uint)
qed
lemma sint_eq_uint_small: "(w::u32) < BUFFSIZE \<Longrightarrow> sint w = uint w"
  by (rule sint_eq_uint_pos) (simp add: word_less_def uint_BUFFSIZE)

lemma wrap_head_zero: "(h + (BUFFSIZE - h)) mod BUFFSIZE = 0"
  by (simp add: BUFFSIZE_def)

lemma circalloc_Some:
  assumes "head s < BUFFSIZE" "circalloc s sz = (Some p, s')" "block_size_of sz \<noteq> 0"
  shows "if wraps s (block_size_of sz)
         then p = sizeof_hdr \<and>
              s' = s\<lparr>buffer := (buffer s)(uint (head s) := \<lparr>free = HDR_GAP, len = BUFFSIZE - head s\<rparr>,
                                          0 := \<lparr>free = HDR_INUSE, len = block_size_of sz\<rparr>),
                     head := block_size_of sz mod BUFFSIZE\<rparr>
         else p = uint (head s) + sizeof_hdr \<and>
              s' = s\<lparr>buffer := (buffer s)(uint (head s) := \<lparr>free = HDR_INUSE, len = block_size_of sz\<rparr>),
                     head := (head s + block_size_of sz) mod BUFFSIZE\<rparr>"
proof -
  have nz: "BUFFSIZE - head s \<noteq> 0" using assms(1) by simp
  show ?thesis
    using assms nz
    by (auto simp add: circalloc_def Let_def circallocblock_def wrap_head_zero sint_eq_uint_small split: if_splits)
qed


lemma block_size_of_nonzero: "uint sz \<le> 2 ^ 31 - 24 \<Longrightarrow> block_size_of sz \<noteq> 0"
proof
  assume a: "uint sz \<le> 2 ^ 31 - 24" and z: "block_size_of sz = 0"
  have "uint (block_size_of sz) = (uint sz + 23) div 16 * 16" using a by (rule block_size_of_ok)
  moreover have "0 < (uint sz + 23) div 16 * 16" using uint_ge_0 [of sz] by presburger
  ultimately show False using z by simp
qed

lemma round_up_16: "round_up (n + 8) 16 = (n + 23) div 16 * 16"
  by (simp add: round_up_def)

section \<open>Block sizing\<close>

text \<open>
  C2 (as amended). For every request size up to \<open>2^31 - 24\<close> and every state whose
  head is a multiple of 16 inside the buffer, the block that a successful
  \<open>circalloc\<close> reserves has the length \<open>block_size\<close> in its header, and
  \<open>block_size\<close> is the request plus the 8 bytes of \<open>struct hdr\<close>, the sum rounded up to
  16: a positive multiple of 16.
\<close>

theorem alloc_block_length:
  assumes "uint sz \<le> 2 ^ 31 - 24" and "head s < BUFFSIZE" and "16 dvd uint (head s)"
    and "circalloc s sz = (Some p, s')"
  shows "len (buffer s' (p - sizeof_hdr)) = block_size_of sz
       \<and> sint (block_size_of sz) = round_up (uint sz + sizeof_hdr) 16
       \<and> 0 < sint (block_size_of sz) \<and> 16 dvd sint (block_size_of sz)"
proof -
  have nz: "block_size_of sz \<noteq> 0" using assms(1) by (rule block_size_of_nonzero)
  have u: "uint (block_size_of sz) = (uint sz + 23) div 16 * 16" using assms(1) by (rule block_size_of_ok)
  have a: "uint sz \<le> 2147483624" using assms(1) by simp
  have lt: "(uint sz + 23) div 16 * 16 < 2147483648" "0 < (uint sz + 23) div 16 * 16 "
    using a uint_ge_0 [of sz] by presburger+
  have sg: "sint (block_size_of sz) = (uint sz + 23) div 16 * 16"
    using lt u by (simp add: sint_eq_uint_pos)
  have "len (buffer s' (p - sizeof_hdr)) = block_size_of sz"
    using circalloc_Some [OF assms(2) assms(4) nz] by (auto split: if_splits)
  then show ?thesis using sg lt by (simp add: sizeof_hdr_def round_up_16)
qed

text \<open>The theorem at \<open>circalloc(10)\<close> on the zeroed allocator.\<close>

theorem alloc_block_length_witness:
  "uint (10 :: u32) \<le> 2 ^ 31 - 24 \<and> head init_state < BUFFSIZE
   \<and> 16 dvd uint (head init_state)
   \<and> circalloc init_state 10 = (Some 8, snd (circalloc init_state 10))
   \<and> len (buffer (snd (circalloc init_state 10)) (8 - sizeof_hdr)) = block_size_of 10
   \<and> sint (block_size_of 10) = round_up (uint (10 :: u32) + sizeof_hdr) 16
   \<and> 0 < sint (block_size_of 10) \<and> 16 dvd sint (block_size_of 10)"
proof -
  have a: "uint (10 :: u32) \<le> 2 ^ 31 - 24" by simp
  have b: "head init_state < BUFFSIZE" by (simp add: init_state_def BUFFSIZE_def)
  have al: "16 dvd uint (head init_state)" by (simp add: init_state_def)
  have c: "circalloc init_state 10 = (Some 8, snd (circalloc init_state 10))"
    by (simp add: circalloc_def init_state_def block_size_of_def wraps_def avail_def BUFFSIZE_def
        sizeof_hdr_def Let_def)
  from a b al c alloc_block_length [OF a b al c] show ?thesis by blast
qed

text \<open>
  C2 as stated fails: a request of 8 bytes reserves a block of 16 bytes, where
  \<open>round_up(8, 16) + 16\<close> is 32; and for a request of \<open>0xFFFFFFF0\<close> bytes the
  block size, cut to 32 bits, is 0 and so not positive.
\<close>

theorem nsize_counterexample:
  "uint (block_size_of 8) = 16 \<and> nsize_spec 8 = 32
   \<and> len (buffer (snd (circalloc init_state 8)) 0) = 16
   \<and> block_size_of 0xFFFFFFF0 = 0"
  by (simp add: circalloc_def init_state_def block_size_of_def wraps_def avail_def BUFFSIZE_def
        sizeof_hdr_def Let_def nsize_spec_def round_up_def circallocblock_def HDR_GAP_def HDR_INUSE_def)


lemma uint_BUFFSIZE_minus: "h < BUFFSIZE \<Longrightarrow> uint (BUFFSIZE - h) = 2048 - uint h"
proof -
  assume a: "h < BUFFSIZE"
  then have "uint h \<le> uint BUFFSIZE" by (simp add: word_less_def)
  then have "uint (BUFFSIZE - h) = uint BUFFSIZE - uint h" by (simp only: uint_sub_lem)
  then show ?thesis by (simp add: uint_BUFFSIZE)
qed

lemma uint_add32: "uint (x + y :: u32) = (uint x + uint y) mod 2 ^ 32"
  by (simp add: uint_word_ariths)

lemma size_ok_block_size:
  assumes "size_ok sz"
  shows "uint (block_size_of sz) = (uint sz + 23) div 16 * 16"
    and "16 \<le> uint (block_size_of sz)" and "uint (block_size_of sz) < 2 ^ 31 - 2 ^ 11"
    and "16 dvd uint (block_size_of sz)"
proof -
  have a: "uint sz < 2147479552" using assms by (simp add: size_ok_def)
  then have "uint sz \<le> 2 ^ 31 - 24" by simp
  then show u: "uint (block_size_of sz) = (uint sz + 23) div 16 * 16" by (rule block_size_of_ok)
  have "16 \<le> (uint sz + 23) div 16 * 16" "(uint sz + 23) div 16 * 16 < 2147481600"
    using a uint_ge_0 [of sz] by presburger+
  then show "16 \<le> uint (block_size_of sz)" "uint (block_size_of sz) < 2 ^ 31 - 2 ^ 11"
    using u by simp_all
  show "16 dvd uint (block_size_of sz)" using u by simp
qed

lemma wraps_uint:
  "valid_state s \<Longrightarrow>
   wraps s b \<longleftrightarrow> uint (tail s) \<le> uint (head s) \<and> N_B - uint (head s) < uint b"
  by (simp add: wraps_def valid_state_def word_le_def word_less_def [of _ b] uint_BUFFSIZE_minus
      N_B_def uint_BUFFSIZE)

lemma uint_rsize:
  assumes "valid_state s" and "size_ok sz"
  shows "uint (block_size_of sz + (if wraps s (block_size_of sz) then BUFFSIZE - head s else 0))
         = rsize s sz"
proof -
  define b h where "b = uint (block_size_of sz)" and "h = uint (head s)"
  have bb: "16 \<le> b" "b < 2 ^ 31 - 2 ^ 11"
    using size_ok_block_size [OF assms(2)] by (simp_all add: b_def)
  have h: "0 \<le> h" "h < 2048"
    using assms(1) by (simp_all add: valid_state_uint h_def)
  have r: "uint (BUFFSIZE - head s) = 2048 - h"
    using assms(1) by (simp add: uint_BUFFSIZE_minus valid_state_def h_def)
  note w = wraps_uint [OF assms(1), of "block_size_of sz"]
  show ?thesis
  proof (cases "wraps s (block_size_of sz)")
    case True
    then have c: "uint (tail s) \<le> uint (head s) \<and> N_B - uint (head s) < uint (block_size_of sz)"
      using w by blast
    have "uint (block_size_of sz + (BUFFSIZE - head s)) = (b + (2048 - h)) mod 2 ^ 32"
      by (simp only: uint_add32 r b_def)
    also have "\<dots> = b + (2048 - h)"
      using bb h by (simp add: mod_pos_pos_trivial)
    finally have "uint (block_size_of sz + (BUFFSIZE - head s)) = b + (2048 - h)" .
    then show ?thesis
      using True c by (simp add: rsize_def b_def h_def N_B_def uint_BUFFSIZE)
  next
    case False
    then have c: "\<not> (uint (tail s) \<le> uint (head s) \<and> N_B - uint (head s) < uint (block_size_of sz))"
      using w by blast
    show ?thesis
      using False c by (auto simp add: rsize_def)
  qed
qed

lemma circalloc_None_iff:
  "fst (circalloc s sz) = None \<longleftrightarrow>
   avail s \<le> block_size_of sz + (if wraps s (block_size_of sz) then BUFFSIZE - head s else 0)"
  by (simp add: circalloc_def Let_def)

lemma null_iff_no_room:
  assumes "valid_state s" and "size_ok sz"
  shows "fst (circalloc s sz) = None \<longleftrightarrow> L_B s + rsize s sz \<ge> N_B"
proof -
  have "fst (circalloc s sz) = None \<longleftrightarrow> N_B - L_B s \<le> rsize s sz"
    unfolding circalloc_None_iff word_le_def uint_rsize [OF assms] uint_avail [OF assms(1)] ..
  then show ?thesis by auto
qed

section \<open>Running out of space\<close>

text \<open>
  C5 (as amended). In every state whose indices lie inside the buffer and for every
  request size in range, \<open>circalloc\<close> returns \<open>NULL\<close> if and only if the total
  reservation \<open>rsize\<close> (the block plus any wrap gap) is at least the free space, that is
  \<open>L_B + rsize \<ge> N_B\<close>; otherwise it returns a pointer.
\<close>

theorem alloc_fails_iff:
  assumes "valid_state s" and "size_ok sz"
  shows "fst (circalloc s sz) = None \<longleftrightarrow> L_B s + rsize s sz \<ge> N_B"
  using assms by (rule null_iff_no_room)

text \<open>The theorem at \<open>circalloc(88)\<close> with 112 bytes free.\<close>

theorem alloc_fails_iff_witness:
  "valid_state nearly_full \<and> size_ok 88 \<and> fst (circalloc nearly_full 88) \<noteq> None
   \<and> L_B nearly_full + rsize nearly_full 88 < N_B"
proof -
  have a: "valid_state nearly_full" by (simp add: valid_state_def nearly_full_def init_state_def BUFFSIZE_def)
  have b: "size_ok 88" by (simp add: size_ok_def)
  have c: "L_B nearly_full + rsize nearly_full 88 < N_B"
    by (simp add: L_B_def rsize_def N_B_def BUFFSIZE_def nearly_full_def init_state_def block_size_of_def)
  from a b c alloc_fails_iff [OF a b] show ?thesis by simp
qed

text \<open>
  C5 as stated fails: with 112 bytes free, \<open>circalloc(104)\<close> needs exactly 112 bytes, so
  \<open>L_B + rsize = N_B\<close> does not exceed \<open>N_B\<close>, and yet the call returns \<open>NULL\<close>.
\<close>

theorem alloc_exact_fit_counterexample:
  "\<not> (fst (circalloc nearly_full 104) = None \<longleftrightarrow> L_B nearly_full + rsize nearly_full 104 > N_B)"
  by (simp add: L_B_def rsize_def N_B_def BUFFSIZE_def nearly_full_def init_state_def block_size_of_def
      circalloc_def wraps_def avail_def Let_def)

text \<open>
  The range of sizes matters: for a request so large that the 32-bit sums wrap around,
  \<open>circalloc\<close> can return a pointer although the request exceeds the whole buffer.
\<close>

lemma huge_request_wraps: "fst (circalloc (preload 2000) 0xFFFFFFE0) = Some 8"
  by (simp add: circalloc_def block_size_of_def wraps_def avail_def BUFFSIZE_def sizeof_hdr_def
      Let_def preload_def init_state_def)


lemmas eval_defs = circalloc_def circallocblock_def block_size_of_def wraps_def avail_def
  BUFFSIZE_def sizeof_hdr_def HDR_GAP_def HDR_INUSE_def HDR_FREE_def Let_def

section \<open>The returned pointer\<close>

text \<open>
  C1 (as amended). For every successful \<open>circalloc\<close> from a state whose head is a
  multiple of 16 inside the buffer, the returned pointer is \<open>sizeof(struct hdr) = 8\<close>
  bytes past a 16-aligned block start, so \<open>p mod 16 = 8\<close> relative to the buffer: the
  header of the block, marked in use, lies at \<open>p - 8\<close> and the payload begins at
  \<open>block_start + 8\<close>.
\<close>

theorem alloc_pointer_offset:
  assumes "head s < BUFFSIZE" and "16 dvd uint (head s)"
    and "block_size_of sz \<noteq> 0" and "circalloc s sz = (Some p, s')"
  shows "p mod 16 = 8 \<and> 16 dvd (p - sizeof_hdr) \<and> free (buffer s' (p - sizeof_hdr)) = HDR_INUSE"
  using circalloc_Some [OF assms(1) assms(4) assms(3)] assms(2)
  by (auto simp add: sizeof_hdr_def mod_add_left_eq [symmetric, of _ 16] dvd_eq_mod_eq_0 split: if_splits)

text \<open>
  The theorem at \<open>circalloc(10)\<close> on the zeroed allocator.
\<close>

theorem alloc_pointer_offset_witness:
  "head init_state < BUFFSIZE \<and> 16 dvd uint (head init_state) \<and> block_size_of 10 \<noteq> 0
   \<and> circalloc init_state 10 = (Some 8, snd (circalloc init_state 10))
   \<and> (8 :: int) mod 16 = 8 \<and> 16 dvd (8 - sizeof_hdr)
   \<and> free (buffer (snd (circalloc init_state 10)) (8 - sizeof_hdr)) = HDR_INUSE"
proof -
  have a: "head init_state < BUFFSIZE" by (simp add: init_state_def BUFFSIZE_def)
  have b: "16 dvd uint (head init_state)" by (simp add: init_state_def)
  have c: "block_size_of 10 \<noteq> 0" by (simp add: block_size_of_def)
  have d: "circalloc init_state 10 = (Some 8, snd (circalloc init_state 10))"
    by (simp add: eval_defs init_state_def)
  from a b c d alloc_pointer_offset [OF a b c d] show ?thesis by blast
qed

text \<open>
  C1 as stated fails: the first allocation of the zeroed allocator returns
  \<open>buffer + 8\<close>, which is not a multiple of 16 past the buffer.
\<close>

theorem alloc_alignment_counterexample:
  "fst (circalloc init_state 10) = Some 8 \<and> (8 :: int) mod 16 \<noteq> 0"
  by (simp add: eval_defs init_state_def)

section \<open>Wrapping at the end of the buffer\<close>

text \<open>
  C3 (as amended). From \<open>head = tail = 2000\<close> in the 2048-byte buffer,
  \<open>circalloc(30)\<close> needs 48 bytes, which fit exactly before the end: no gap block is
  written, the pointer is \<open>buffer + 2008\<close> and the head wraps to 0. The following
  \<open>circalloc(20)\<close> returns \<open>buffer + 8\<close> and leaves the head at \<open>0x20\<close>.
\<close>

theorem exact_fit_wrap:
  "circalloc \<lparr>buffer = b, head = 2000, tail = 2000\<rparr> 30
     = (Some 2008, \<lparr>buffer = b(2000 := \<lparr>free = HDR_INUSE, len = 48\<rparr>), head = 0, tail = 2000\<rparr>)
   \<and> circalloc \<lparr>buffer = b(2000 := \<lparr>free = HDR_INUSE, len = 48\<rparr>), head = 0, tail = 2000\<rparr> 20
     = (Some 8, \<lparr>buffer = b(2000 := \<lparr>free = HDR_INUSE, len = 48\<rparr>, 0 := \<lparr>free = HDR_INUSE, len = 32\<rparr>),
                 head = 0x20, tail = 2000\<rparr>)"
  by (simp add: eval_defs)

text \<open>
  C3 as stated fails: after \<open>circalloc(30)\<close> the head is 0, not \<open>0x20\<close>, the
  pointer is \<open>buffer + 2008\<close>, not \<open>buffer + 16\<close>, and after \<open>circalloc(20)\<close> the
  head is \<open>0x20\<close>, not \<open>0x40\<close>.
\<close>

theorem exact_fit_wrap_counterexample:
  "\<not> (head (snd (circalloc (preload 2000) 30)) = 0x20
      \<and> fst (circalloc (preload 2000) 30) = Some 16
      \<and> head (snd (circalloc (snd (circalloc (preload 2000) 30)) 20)) = 0x40)"
  by (simp add: eval_defs preload_def init_state_def)


lemma uint_mod_BUFFSIZE: "uint (w mod BUFFSIZE) = uint w mod 2048"
  by (simp add: uint_mod uint_BUFFSIZE)

lemma small_mod_BUFFSIZE: "uint w < 2048 \<Longrightarrow> w mod BUFFSIZE = w"
  by (simp add: word_mod_less_divisor word_less_def uint_BUFFSIZE mod_word_less)

text \<open>What a successful allocation implies for the indices, in integers.\<close>

lemma circalloc_success_bounds:
  assumes v: "valid_state s" and ok: "size_ok sz" and succ: "fst (circalloc s sz) \<noteq> None"
  shows "if wraps s (block_size_of sz)
         then uint (block_size_of sz) < uint (tail s) \<and> uint (tail s) \<le> uint (head s)
         else (uint (tail s) \<le> uint (head s) \<and> uint (head s) + uint (block_size_of sz) \<le> 2048)
            \<or> (uint (head s) + uint (block_size_of sz) < uint (tail s))"
proof -
  define b h t where "b = uint (block_size_of sz)" and "h = uint (head s)" and "t = uint (tail s)"
  have bb: "16 \<le> b" using size_ok_block_size [OF ok] by (simp add: b_def)
  have ht: "0 \<le> h" "h < 2048" "0 \<le> t" "t < 2048"
    using v by (simp_all add: valid_state_uint h_def t_def)
  have "L_B s + rsize s sz < N_B"
    using succ null_iff_no_room [OF v ok] by simp
  then have fit: "(h - t) mod 2048 + rsize s sz < 2048"
    by (simp add: L_B_def N_B_def uint_BUFFSIZE h_def t_def)
  note w = wraps_uint [OF v, of "block_size_of sz"]
  show ?thesis
  proof (cases "t \<le> h")
    case True
    then have m: "(h - t) mod 2048 = h - t" using ht by (simp add: mod_pos_pos_trivial)
    show ?thesis
      using fit m True w ht bb
      by (auto simp add: rsize_def N_B_def uint_BUFFSIZE b_def [symmetric] h_def [symmetric] t_def [symmetric]
          split: if_splits)
  next
    case False
    then have m: "(h - t) mod 2048 = h - t + 2048" using ht by (simp add: mod_neg_wrap)
    show ?thesis
      using fit m False w ht bb
      by (auto simp add: rsize_def N_B_def uint_BUFFSIZE b_def [symmetric] h_def [symmetric] t_def [symmetric]
          split: if_splits)
  qed
qed

text \<open>
  C4 (as amended). In a state whose indices lie inside the buffer and whose head is a
  multiple of 16, and for a request size in range: when the block does not fit between
  the head and the physical end of the buffer and \<open>circalloc\<close> succeeds, it writes a gap block at the old head that
  covers the rest of the buffer (marked \<open>HDR_GAP\<close>) and the real block at offset 0
  (marked \<open>HDR_INUSE\<close>), touches no other header, returns \<open>buffer + 8\<close> and leaves
  the head at the block size. The witness is the scenario of the claim: from
  \<open>head = tail = 2000\<close>, \<open>circalloc(1000)\<close> writes a 48-byte gap at 2000 and a
  1008-byte block at 0, returns \<open>buffer + 8\<close> and leaves the head at \<open>0x3F0\<close>.
\<close>

theorem gap_block_insertion:
  assumes "valid_state s" and "16 dvd uint (head s)" and "size_ok sz"
    and "BUFFSIZE - head s < block_size_of sz" and "circalloc s sz = (Some p, s')"
  shows "buffer s' (uint (head s)) = \<lparr>free = HDR_GAP, len = BUFFSIZE - head s\<rparr>
       \<and> buffer s' 0 = \<lparr>free = HDR_INUSE, len = block_size_of sz\<rparr>
       \<and> (\<forall>a. a \<noteq> uint (head s) \<and> a \<noteq> 0 \<longrightarrow> buffer s' a = buffer s a)
       \<and> p = sizeof_hdr \<and> head s' = block_size_of sz \<and> tail s' = tail s"
proof -
  have succ: "fst (circalloc s sz) \<noteq> None" using assms(5) by simp
  have hv: "head s < BUFFSIZE" using assms(1) by (simp add: valid_state_def)
  have nz: "block_size_of sz \<noteq> 0"
    using size_ok_block_size(2) [OF assms(3)] by auto
  have nf: "2048 - uint (head s) < uint (block_size_of sz)"
    using assms(4) hv by (simp add: word_less_def uint_BUFFSIZE_minus)
  have ht: "uint (head s) < 2048" "uint (tail s) < 2048"
    using assms(1) by (simp_all add: valid_state_uint)
  note sb = circalloc_success_bounds [OF assms(1) assms(3) succ]
  have w: "wraps s (block_size_of sz)"
  proof (rule ccontr)
    assume "\<not> wraps s (block_size_of sz)"
    then show False using sb nf ht by auto
  qed
  then have b: "uint (block_size_of sz) < uint (tail s)" "uint (tail s) \<le> uint (head s)"
    using sb by simp_all
  then have h0: "uint (head s) \<noteq> 0" using uint_ge_0 [of "block_size_of sz"] by linarith
  have "block_size_of sz mod BUFFSIZE = block_size_of sz"
    using b ht by (simp add: small_mod_BUFFSIZE)
  then show ?thesis
    using circalloc_Some [OF hv assms(5) nz] w h0 by auto
qed

text \<open>
  The theorem at \<open>circalloc(1000)\<close> from \<open>head = tail = 2000\<close>.
\<close>

theorem gap_block_insertion_witness:
  "valid_state (preload 2000) \<and> 16 dvd uint (head (preload 2000)) \<and> size_ok 1000
   \<and> BUFFSIZE - head (preload 2000) < block_size_of 1000
   \<and> circalloc (preload 2000) 1000 = (Some 8, snd (circalloc (preload 2000) 1000))
   \<and> buffer (snd (circalloc (preload 2000) 1000)) 2000 = \<lparr>free = HDR_GAP, len = 48\<rparr>
   \<and> buffer (snd (circalloc (preload 2000) 1000)) 0 = \<lparr>free = HDR_INUSE, len = 1008\<rparr>
   \<and> head (snd (circalloc (preload 2000) 1000)) = 0x3F0
   \<and> tail (snd (circalloc (preload 2000) 1000)) = 2000"
proof -
  have a: "valid_state (preload 2000)"
    by (simp add: valid_state_def preload_def init_state_def BUFFSIZE_def)
  have al: "16 dvd uint (head (preload 2000))" by (simp add: preload_def init_state_def)
  have b: "size_ok 1000" by (simp add: size_ok_def)
  have c: "BUFFSIZE - head (preload 2000) < block_size_of 1000"
    by (simp add: preload_def init_state_def BUFFSIZE_def block_size_of_def)
  have d: "circalloc (preload 2000) 1000 = (Some 8, snd (circalloc (preload 2000) 1000))"
    by (simp add: eval_defs preload_def init_state_def)
  have e: "uint (head (preload 2000)) = 2000" "BUFFSIZE - head (preload 2000) = 48"
    "block_size_of 1000 = 1008" "tail (preload 2000) = 2000"
    by (simp_all add: preload_def init_state_def BUFFSIZE_def block_size_of_def)
  from a al b c d gap_block_insertion [OF a al b c d] show ?thesis
    unfolding e by blast
qed

text \<open>
  C4 as stated fails: the pointer returned in that scenario is \<open>buffer + 8\<close>, not
  \<open>buffer + 16\<close>.
\<close>

theorem gap_block_pointer_counterexample:
  "fst (circalloc (preload 2000) 1000) = Some 8 \<and> (8 :: int) \<noteq> 16"
  by (simp add: eval_defs preload_def init_state_def)


section \<open>The retirement walk of circfree\<close>

lemma N_B_eq: "N_B = 2048" by (simp add: N_B_def uint_BUFFSIZE)

lemma uint_step: "uint ((t + l) mod BUFFSIZE) = (uint t + uint l) mod N_B"
proof -
  have "uint ((t + l) mod BUFFSIZE) = ((uint t + uint l) mod 2 ^ 32) mod 2048"
    by (simp only: uint_mod_BUFFSIZE uint_add32)
  also have "\<dots> = (uint t + uint l) mod 2048"
    by (simp add: mod_mod_cancel)
  finally show ?thesis by (simp add: N_B_eq)
qed

lemma sint_step: "sint ((t + l) mod BUFFSIZE) = (uint t + uint l) mod N_B"
proof -
  have "uint ((t + l) mod BUFFSIZE) < 2 ^ 31"
    by (simp add: uint_step N_B_eq)
  then show ?thesis by (simp add: sint_eq_uint_pos uint_step)
qed

lemma span_Nil [simp]: "span B [] = 0" by (simp add: span_def)
lemma span_Cons [simp]: "span B (x # xs) = uint (len (B x)) + span B xs" by (simp add: span_def)
lemma span_append [simp]: "span B (xs @ ys) = span B xs + span B ys" by (simp add: span_def)

lemma span_nonneg: "0 \<le> span B xs"
  by (induction xs) simp_all

lemma chain_span_pos: "chain B a xs e \<Longrightarrow> xs \<noteq> [] \<Longrightarrow> 0 < span B xs"
  using span_nonneg [of B "tl xs"] by (cases xs) (auto simp add: block_ok_def)

lemma chain_end: "chain B a xs e \<Longrightarrow> 0 \<le> a \<Longrightarrow> a < N_B \<Longrightarrow> e = (a + span B xs) mod N_B"
proof (induction xs arbitrary: a)
  case Nil
  then show ?case by (simp add: mod_pos_pos_trivial)
next
  case (Cons x xs)
  from Cons.prems(1) have x: "x = a" and c: "chain B ((x + uint (len (B x))) mod N_B) xs e"
    by auto
  have "e = ((x + uint (len (B x))) mod N_B + span B xs) mod N_B"
    using c by (rule Cons.IH) (simp_all add: N_B_eq)
  then show ?case using x by (simp add: mod_add_left_eq add.assoc)
qed

lemma chain_start_bounds: "chain B a xs e \<Longrightarrow> xs \<noteq> [] \<Longrightarrow> 0 \<le> a \<and> a < N_B"
  by (cases xs) (auto simp add: block_ok_def)

lemma nonempty_chain_neq:
  assumes "chain B a xs e" and "xs \<noteq> []" and "span B xs < N_B"
  shows "a \<noteq> e"
proof -
  have b: "0 \<le> a" "a < N_B" using chain_start_bounds [OF assms(1,2)] by simp_all
  have p: "0 < span B xs" using assms(1,2) by (rule chain_span_pos)
  have e: "e = (a + span B xs) mod N_B" using assms(1) b by (rule chain_end)
  show ?thesis
  proof (cases "a + span B xs < N_B")
    case True
    then have "(a + span B xs) mod N_B = a + span B xs" using b p by (simp add: mod_pos_pos_trivial)
    then have "e = a + span B xs" using e by simp
    then show ?thesis using p by linarith
  next
    case False
    then have "(a + span B xs - N_B) mod N_B = a + span B xs - N_B"
      using b assms(3) by (intro mod_pos_pos_trivial) simp_all
    then have "(a + span B xs) mod N_B = a + span B xs - N_B" by simp
    then have "e = a + span B xs - N_B" using e by simp
    then show ?thesis using assms(3) by linarith
  qed
qed

lemma loop_inuse: "free (buffer s m) = HDR_INUSE \<Longrightarrow> circfree_loop s m g = Some s"
  by (subst circfree_loop.simps) simp

lemma loop_gap:
  "free (buffer s m) = HDR_GAP \<Longrightarrow> head s \<noteq> tail s \<Longrightarrow>
   circfree_loop s m g = circfree_loop s (sint ((tail s + len (buffer s m)) mod BUFFSIZE)) (Some m)"
  by (subst circfree_loop.simps) (simp add: HDR_GAP_def HDR_INUSE_def)

lemma loop_free:
  "free (buffer s m) = HDR_FREE \<Longrightarrow>
   circfree_loop s m g =
     (if head s \<noteq> case_free_tail s m g
      then circfree_loop (s\<lparr>tail := case_free_tail s m g\<rparr>) (uint (case_free_tail s m g)) None
      else Some (s\<lparr>tail := case_free_tail s m g\<rparr>))"
  by (subst circfree_loop.simps) (simp add: HDR_GAP_def HDR_INUSE_def HDR_FREE_def Let_def)


lemma HDR_distinct [simp]:
  "HDR_FREE \<noteq> HDR_INUSE" "HDR_INUSE \<noteq> HDR_FREE" "HDR_FREE \<noteq> HDR_GAP"
  "HDR_GAP \<noteq> HDR_FREE" "HDR_INUSE \<noteq> HDR_GAP" "HDR_GAP \<noteq> HDR_INUSE"
  by (simp_all add: HDR_FREE_def HDR_INUSE_def HDR_GAP_def)

lemma case_free_tail_None:
  "uint (case_free_tail s m None) = (uint (tail s) + uint (len (buffer s m))) mod N_B"
  by (simp add: case_free_tail_def uint_step)

lemma case_free_tail_Some:
  "uint (case_free_tail s m (Some g)) =
   ((uint (tail s) + uint (len (buffer s g))) mod N_B + uint (len (buffer s m))) mod N_B"
  by (simp add: case_free_tail_def uint_step)

lemma free_step:
  assumes B: "buffer s = B" and fr: "free (B m) = HDR_FREE"
    and ut: "uint (case_free_tail s m g) = a"
    and ch: "chain B a rest (uint (head s))" and sp: "span B rest < N_B"
    and IH: "\<And>s'. rest \<noteq> [] \<Longrightarrow> buffer s' = B \<Longrightarrow> uint (tail s') = a \<Longrightarrow> head s' = head s \<Longrightarrow>
               \<exists>t'. circfree_loop s' (uint (tail s')) None = Some (s'\<lparr>tail := t'\<rparr>) \<and> uint t' = R"
    and R0: "rest = [] \<Longrightarrow> R = uint (head s)"
  shows "\<exists>t'. circfree_loop s m g = Some (s\<lparr>tail := t'\<rparr>) \<and> uint t' = R"
proof (cases "rest = []")
  case True
  then have "uint (head s) = uint (case_free_tail s m g)" using ch ut by simp
  then have "head s = case_free_tail s m g" by (simp only: word_uint_eq_iff)
  then have "circfree_loop s m g = Some (s\<lparr>tail := case_free_tail s m g\<rparr>)"
    using fr B by (simp add: loop_free)
  then show ?thesis using ut R0 [OF True] True ch by auto
next
  case False
  let ?s' = "s\<lparr>tail := case_free_tail s m g\<rparr>"
  have "a \<noteq> uint (head s)" using ch False sp by (rule nonempty_chain_neq)
  then have ne: "head s \<noteq> case_free_tail s m g" using ut by auto
  then have l: "circfree_loop s m g = circfree_loop ?s' (uint (tail ?s')) None"
    using fr B by (simp add: loop_free)
  obtain t' where "circfree_loop ?s' (uint (tail ?s')) None = Some (?s'\<lparr>tail := t'\<rparr>)" and "uint t' = R"
    using IH [of ?s'] False B ut by auto
  then show ?thesis using l by auto
qed

lemma loop_stay:
  "free (buffer s m) = HDR_INUSE \<Longrightarrow>
   \<exists>t'. circfree_loop s m g = Some (s\<lparr>tail := t'\<rparr>) \<and> uint t' = uint (tail s)"
  by (rule exI [of _ "tail s"]) (simp add: loop_inuse)

lemma walk:
  assumes "buffer s = B" and "chain B (uint (tail s)) bs (uint (head s))" and "bs \<noteq> []"
    and "span B bs < N_B" and "gaps_ok B bs"
  shows "\<exists>t'. circfree_loop s (uint (tail s)) None = Some (s\<lparr>tail := t'\<rparr>)
            \<and> uint t' = start_of (retire B bs) (uint (head s))"
  using assms
proof (induction B bs arbitrary: s rule: retire.induct)
  case (1 B)
  then show ?case by simp
next
  case (2 B x)
  have x: "x = uint (tail s)" and ok: "block_ok B x"
    and ch: "chain B ((x + uint (len (B x))) mod N_B) [] (uint (head s))"
    using "2.prems"(2) by auto
  have fl: "free (B x) = HDR_INUSE \<or> free (B x) = HDR_FREE"
    using ok "2.prems"(5) by (auto simp add: block_ok_def)
  show ?case
  proof (cases "free (B x) = HDR_FREE")
    case True
    have "\<exists>t'. circfree_loop s x None = Some (s\<lparr>tail := t'\<rparr>) \<and> uint t' = uint (head s)"
      using "2.prems"(1) True _ ch
    proof (rule free_step)
      show "uint (case_free_tail s x None) = (x + uint (len (B x))) mod N_B"
        using x "2.prems"(1) by (simp add: case_free_tail_None)
    qed (simp_all add: N_B_eq)
    then show ?thesis using True x by simp
  next
    case False
    then have u: "free (B x) = HDR_INUSE" using fl by simp
    then show ?thesis
      using loop_stay [of s x None] "2.prems"(1) x by simp
  qed
next
  case (3 B x y xs)
  have x: "x = uint (tail s)" and okx: "block_ok B x"
    and y: "y = (x + uint (len (B x))) mod N_B" and oky: "block_ok B y"
    and chy: "chain B y (y # xs) (uint (head s))"
    and chxs: "chain B ((y + uint (len (B y))) mod N_B) xs (uint (head s))"
    using "3.prems"(2) by auto
  have lx: "0 < uint (len (B x))" and ly: "0 < uint (len (B y))"
    using okx oky by (simp_all add: block_ok_def)
  have spy: "span B (y # xs) < N_B" and spxs: "span B xs < N_B"
    using "3.prems"(4) lx ly by simp_all
  have gy: "gaps_ok B (y # xs)" using "3.prems"(5) by simp
  have gxs: "gaps_ok B xs" using gy by (cases xs) simp_all
  have flx: "free (B x) = HDR_INUSE \<or> free (B x) = HDR_FREE \<or> free (B x) = HDR_GAP"
    using okx by (auto simp add: block_ok_def)
  have ne: "head s \<noteq> tail s"
  proof -
    have "uint (tail s) \<noteq> uint (head s)"
      using "3.prems"(2) _ "3.prems"(4) by (rule nonempty_chain_neq) simp
    then show ?thesis by auto
  qed
  from flx show ?case
  proof (elim disjE)
    assume u: "free (B x) = HDR_INUSE"
    then show ?thesis
      using loop_stay [of s x None] "3.prems"(1) x by simp
  next
    assume f: "free (B x) = HDR_FREE"
    have "\<exists>t'. circfree_loop s x None = Some (s\<lparr>tail := t'\<rparr>)
             \<and> uint t' = start_of (retire B (y # xs)) (uint (head s))"
      using "3.prems"(1) f _ chy spy
    proof (rule free_step)
      show "uint (case_free_tail s x None) = y"
        using x y "3.prems"(1) by (simp add: case_free_tail_None)
    next
      fix s' :: state
      assume "buffer s' = B" "uint (tail s') = y" "head s' = head s"
      then show "\<exists>t'. circfree_loop s' (uint (tail s')) None = Some (s'\<lparr>tail := t'\<rparr>)
                   \<and> uint t' = start_of (retire B (y # xs)) (uint (head s))"
        using "3.IH"(1) [OF f, of s'] chy spy gy by simp
    qed simp
    then show ?thesis using f x by simp
  next
    assume g: "free (B x) = HDR_GAP"
    then have ngy: "free (B y) \<noteq> HDR_GAP" using "3.prems"(5) by simp
    then have fly: "free (B y) = HDR_INUSE \<or> free (B y) = HDR_FREE"
      using oky by (auto simp add: block_ok_def)
    have step: "circfree_loop s x None = circfree_loop s y (Some x)"
      using g ne x y "3.prems"(1) by (simp add: loop_gap sint_step)
    from fly show ?thesis
    proof
      assume u: "free (B y) = HDR_INUSE"
      then show ?thesis
        using loop_stay [of s y "Some x"] "3.prems"(1) g x step by simp
    next
      assume f: "free (B y) = HDR_FREE"
      have "\<exists>t'. circfree_loop s y (Some x) = Some (s\<lparr>tail := t'\<rparr>)
               \<and> uint t' = start_of (retire B xs) (uint (head s))"
        using "3.prems"(1) f _ chxs spxs
      proof (rule free_step)
        show "uint (case_free_tail s y (Some x)) = (y + uint (len (B y))) mod N_B"
          using x y "3.prems"(1) by (simp add: case_free_tail_Some)
      next
        fix s' :: state
        assume "xs \<noteq> []" "buffer s' = B" "uint (tail s') = (y + uint (len (B y))) mod N_B"
          "head s' = head s"
        then show "\<exists>t'. circfree_loop s' (uint (tail s')) None = Some (s'\<lparr>tail := t'\<rparr>)
                     \<and> uint t' = start_of (retire B xs) (uint (head s))"
          using "3.IH"(2) [of s'] g f chxs spxs gxs by simp
      qed simp
      then show ?thesis using f g x step by simp
    qed
  qed
qed

section \<open>Structure of chains\<close>

lemma chain_append:
  "chain B a (xs @ ys) e \<longleftrightarrow> (\<exists>m. chain B a xs m \<and> chain B m ys e)"
  by (induction xs arbitrary: a) auto

lemma chain_start: "chain B a xs e \<Longrightarrow> a = start_of xs e"
  by (cases xs) auto

lemma chain_blocks_ok: "chain B a xs e \<Longrightarrow> x \<in> set xs \<Longrightarrow> block_ok B x"
  by (induction xs arbitrary: a) auto

lemma chain_cong:
  "(\<And>x. x \<in> set xs \<Longrightarrow> len (B' x) = len (B x) \<and> (block_ok B x \<longrightarrow> block_ok B' x)) \<Longrightarrow>
   chain B a xs e \<Longrightarrow> chain B' a xs e"
  by (induction xs arbitrary: a) auto

lemma span_cong: "(\<And>x. x \<in> set xs \<Longrightarrow> len (B' x) = len (B x)) \<Longrightarrow> span B' xs = span B xs"
  by (induction xs) auto

lemma gaps_ok_cong:
  "(\<And>x. x \<in> set xs \<Longrightarrow> (free (B' x) = HDR_GAP) = (free (B x) = HDR_GAP)) \<Longrightarrow>
   gaps_ok B xs \<Longrightarrow> gaps_ok B' xs"
  by (induction B xs rule: gaps_ok.induct) auto

lemma gaps_ok_suffix: "gaps_ok B (xs @ ys) \<Longrightarrow> gaps_ok B ys"
proof (induction xs)
  case Nil
  then show ?case by simp
next
  case (Cons x xs)
  then show ?case by (cases "xs @ ys") auto
qed

lemma gaps_ok_append: "gaps_ok B xs \<Longrightarrow> gaps_ok B ys \<Longrightarrow> gaps_ok B (xs @ ys)"
proof (induction B xs rule: gaps_ok.induct)
  case (1 B)
  then show ?case by simp
next
  case (2 B x)
  then show ?case by (cases ys) auto
next
  case (3 B x y xs)
  then show ?case by auto
qed

lemma retire_suffix:
  "\<exists>pre. bs = pre @ retire B bs \<and> (\<forall>x\<in>set pre. free (B x) = HDR_FREE \<or> free (B x) = HDR_GAP)"
proof (induction B bs rule: retire.induct)
  case (1 B)
  then show ?case by simp
next
  case (2 B x)
  then show ?case by auto
next
  case (3 B x y xs)
  show ?case
  proof (cases "free (B x) = HDR_FREE")
    case True
    then obtain pre where "y # xs = pre @ retire B (y # xs)"
      "\<forall>x\<in>set pre. free (B x) = HDR_FREE \<or> free (B x) = HDR_GAP"
      using "3.IH"(1) by blast
    then show ?thesis using True
      by (intro exI [of _ "x # pre"]) simp
  next
    case False
    show ?thesis
    proof (cases "free (B x) = HDR_GAP \<and> free (B y) = HDR_FREE")
      case True
      then obtain pre where "xs = pre @ retire B xs"
        "\<forall>x\<in>set pre. free (B x) = HDR_FREE \<or> free (B x) = HDR_GAP"
        using "3.IH"(2) False by blast
      then show ?thesis using True False
        by (intro exI [of _ "x # y # pre"]) simp
    next
      case F2: False
      then show ?thesis using False by (intro exI [of _ "[]"]) auto
    qed
  qed
qed

lemma retire_tail_clean:
  "gaps_ok B bs \<Longrightarrow> (\<And>x. x \<in> set bs \<Longrightarrow> block_ok B x) \<Longrightarrow> tail_clean B (retire B bs)"
proof (induction B bs rule: retire.induct)
  case (1 B)
  then show ?case by simp
next
  case (2 B x)
  then show ?case by (auto simp add: block_ok_def)
next
  case (3 B x y xs)
  have gx: "gaps_ok B (y # xs)" using "3.prems"(1) by simp
  then have gxs: "gaps_ok B xs" by (cases xs) simp_all
  have okx: "block_ok B x" and oky: "block_ok B y" using "3.prems"(2) by simp_all
  show ?case
  proof (cases "free (B x) = HDR_FREE")
    case True
    then show ?thesis using "3.IH"(1) gx "3.prems"(2) by simp
  next
    case False
    show ?thesis
    proof (cases "free (B x) = HDR_GAP \<and> free (B y) = HDR_FREE")
      case True
      then show ?thesis using "3.IH"(2) False gxs "3.prems"(2) by simp
    next
      case F2: False
      then show ?thesis using False okx oky "3.prems"(1) by (auto simp add: block_ok_def)
    qed
  qed
qed

section \<open>circfree keeps the state well formed\<close>

lemma len_mark_free [simp]: "len (mark_free B p x) = len (B x)"
  by (simp add: mark_free_def)

lemma free_mark_free:
  "free (mark_free B p x) = (if x = p - sizeof_hdr then HDR_FREE else free (B x))"
  by (simp add: mark_free_def)

lemma block_ok_mark_free: "block_ok B x \<Longrightarrow> block_ok (mark_free B p) x"
  by (simp add: block_ok_def free_mark_free)

lemma gap_mark_free:
  "free (B (p - sizeof_hdr)) \<noteq> HDR_GAP \<Longrightarrow>
   (free (mark_free B p x) = HDR_GAP) = (free (B x) = HDR_GAP)"
  by (auto simp add: free_mark_free)

lemma start_of_bounds:
  assumes "chain B a r e" and "0 \<le> e" and "e < N_B" and "16 dvd e"
  shows "0 \<le> a \<and> a < N_B \<and> 16 dvd a"
  using assms by (cases r) (auto simp add: block_ok_def)

lemma circfree_walk:
  assumes wf: "well_formed s bs" and ne: "bs \<noteq> []"
    and g: "free (buffer s (p - sizeof_hdr)) \<noteq> HDR_GAP"
  shows "\<exists>t'. circfree s p = Some (s\<lparr>buffer := mark_free (buffer s) p, tail := t'\<rparr>)
            \<and> uint t' = start_of (retire (mark_free (buffer s) p) bs) (uint (head s))
            \<and> well_formed (s\<lparr>buffer := mark_free (buffer s) p, tail := t'\<rparr>)
                 (retire (mark_free (buffer s) p) bs)"
proof -
  define B B' where "B = buffer s" and "B' = mark_free (buffer s) p"
  define s1 where "s1 = s\<lparr>buffer := B'\<rparr>"
  define r where "r = retire B' bs"
  have v: "valid_state s" and ah: "16 dvd uint (head s)"
    and ch: "chain B (uint (tail s)) bs (uint (head s))" and sp: "span B bs < N_B"
    and go: "gaps_ok B bs"
    using wf by (simp_all add: well_formed_def B_def)
  have ch': "chain B' (uint (tail s)) bs (uint (head s))"
    using _ ch by (rule chain_cong) (simp add: B'_def B_def block_ok_mark_free)
  have sp': "span B' bs < N_B"
    using sp span_cong [of bs B' B] by (simp add: B'_def B_def)
  have go': "gaps_ok B' bs"
    using _ go by (rule gaps_ok_cong) (simp add: B'_def B_def gap_mark_free [of "buffer s" p, OF g])
  have "circfree s p = circfree_loop s1 (uint (tail s1)) None"
    by (simp add: circfree_def s1_def B'_def mark_free_def)
  moreover obtain t' where l: "circfree_loop s1 (uint (tail s1)) None = Some (s1\<lparr>tail := t'\<rparr>)"
    and t': "uint t' = start_of r (uint (head s1))"
    using walk [of s1 B' bs] ch' ne sp' go' by (auto simp add: s1_def r_def)
  ultimately have res: "circfree s p = Some (s\<lparr>buffer := B', tail := t'\<rparr>)"
    by (simp add: s1_def)
  obtain pre where pre: "bs = pre @ r"
    using retire_suffix [of bs B'] by (auto simp add: r_def)
  then obtain m where m: "chain B' (uint (tail s)) pre m" and cr: "chain B' m r (uint (head s))"
    using ch' by (auto simp add: chain_append)
  have mt: "m = uint t'" using chain_start [OF cr] t' by (simp add: s1_def)
  have hb: "0 \<le> uint (head s)" "uint (head s) < N_B"
    using v by (simp_all add: valid_state_uint N_B_eq)
  have tb: "0 \<le> uint t' \<and> uint t' < N_B \<and> 16 dvd uint t'"
    using cr hb ah unfolding mt by (rule start_of_bounds)
  have spr: "span B' r < N_B"
    using sp' span_nonneg [of B' pre] by (simp add: pre)
  have gr: "gaps_ok B' r" using go' unfolding pre by (rule gaps_ok_suffix)
  have tc: "tail_clean B' r"
    unfolding r_def using go' chain_blocks_ok [OF ch'] by (rule retire_tail_clean)
  have tw: "t' < BUFFSIZE" using tb by (simp add: word_less_def N_B_def)
  have "well_formed (s\<lparr>buffer := B', tail := t'\<rparr>) r"
    using v ah tb tw cr spr gr tc
    by (simp add: well_formed_def valid_state_def mt)
  then show ?thesis using res t'
    by (auto simp add: B'_def r_def s1_def)
qed

section \<open>Offsets of the blocks of a chain\<close>

lemma well_formed_L_B:
  assumes "well_formed s bs"
  shows "L_B s = span (buffer s) bs"
proof -
  have v: "valid_state s" and ch: "chain (buffer s) (uint (tail s)) bs (uint (head s))"
    and sp: "span (buffer s) bs < N_B"
    using assms by (simp_all add: well_formed_def)
  have tb: "0 \<le> uint (tail s)" "uint (tail s) < N_B"
    using v by (simp_all add: valid_state_uint N_B_eq)
  have "uint (head s) = (uint (tail s) + span (buffer s) bs) mod N_B"
    using ch tb by (rule chain_end)
  then have "L_B s = ((uint (tail s) + span (buffer s) bs) mod N_B - uint (tail s)) mod N_B"
    by (simp add: L_B_def)
  also have "\<dots> = span (buffer s) bs mod N_B"
    by (simp add: mod_diff_left_eq)
  also have "\<dots> = span (buffer s) bs"
    using sp span_nonneg [of "buffer s" bs] by (simp add: mod_pos_pos_trivial)
  finally show ?thesis .
qed

lemma offsets_in_chain:
  "chain B a xs e \<Longrightarrow> x \<in> set xs \<Longrightarrow> \<exists>k. 0 \<le> k \<and> k < span B xs \<and> x = (a + k) mod N_B"
proof (induction xs arbitrary: a)
  case Nil
  then show ?case by simp
next
  case (Cons y ys)
  from Cons.prems(1) have y: "y = a" and ok: "block_ok B y"
    and c: "chain B ((y + uint (len (B y))) mod N_B) ys e"
    by auto
  have pos: "0 < uint (len (B y))" and ab: "0 \<le> a" "a < N_B"
    using ok y by (auto simp add: block_ok_def)
  show ?case
  proof (cases "x = y")
    case True
    have "0 < span B (y # ys)" using pos span_nonneg [of B ys] by simp
    moreover have "x = (a + 0) mod N_B" using True y ab by (simp add: mod_pos_pos_trivial)
    ultimately show ?thesis by (intro exI [of _ 0]) simp
  next
    case False
    then have "x \<in> set ys" using Cons.prems(2) by simp
    then obtain k where k: "0 \<le> k" "k < span B ys"
      and x: "x = ((y + uint (len (B y))) mod N_B + k) mod N_B"
      using Cons.IH [OF c] by blast
    have "x = (a + (uint (len (B y)) + k)) mod N_B"
      using x y by (simp add: mod_add_left_eq add.assoc)
    then show ?thesis using k pos
      by (intro exI [of _ "uint (len (B y)) + k"]) simp
  qed
qed

lemma mod_shift_neq:
  fixes u d n :: int
  assumes "0 < d" and "d < n"
  shows "(u + d) mod n \<noteq> u mod n"
proof
  assume "(u + d) mod n = u mod n"
  then have "n dvd (u + d) - u" by (simp only: mod_eq_dvd_iff)
  then have "n dvd d" by simp
  then show False using assms by (simp add: zdvd_not_zless)
qed

lemma chain_not_end:
  assumes "chain B a xs e" and "span B xs < N_B" and "x \<in> set xs"
  shows "x \<noteq> e"
proof -
  have ne: "xs \<noteq> []" using assms(3) by auto
  have b: "0 \<le> a" "a < N_B" using chain_start_bounds [OF assms(1) ne] by simp_all
  obtain k where k: "0 \<le> k" "k < span B xs" and x: "x = (a + k) mod N_B"
    using offsets_in_chain [OF assms(1,3)] by blast
  have e: "e = (a + k + (span B xs - k)) mod N_B"
    using chain_end [OF assms(1) b] by simp
  have "(a + k + (span B xs - k)) mod N_B \<noteq> (a + k) mod N_B"
    using k assms(2) by (intro mod_shift_neq) simp_all
  then show ?thesis using x e by simp
qed

lemma chain_no_wrap_lower:
  assumes "chain B a xs e" and "a + span B xs < N_B" and "x \<in> set xs"
  shows "a \<le> x"
proof -
  have ne: "xs \<noteq> []" using assms(3) by auto
  have b: "0 \<le> a" "a < N_B" using chain_start_bounds [OF assms(1) ne] by simp_all
  obtain k where k: "0 \<le> k" "k < span B xs" and x: "x = (a + k) mod N_B"
    using offsets_in_chain [OF assms(1,3)] by blast
  have "(a + k) mod N_B = a + k" using k b assms(2) by (simp add: mod_pos_pos_trivial)
  then show ?thesis using x k by simp
qed

lemma frame_eq:
  assumes "\<And>x. x \<in> set xs \<Longrightarrow> B' x = B x"
  shows "chain B' a xs e = chain B a xs e" and "span B' xs = span B xs"
    and "gaps_ok B' xs = gaps_ok B xs" and "tail_clean B' xs = tail_clean B xs"
    and "live_ptrs B' xs = live_ptrs B xs"
proof -
  show "chain B' a xs e = chain B a xs e"
    using assms by (induction xs arbitrary: a) (auto simp add: block_ok_def)
  show "span B' xs = span B xs"
    using assms by (induction xs) auto
  show "gaps_ok B' xs = gaps_ok B xs"
    using assms by (induction B xs rule: gaps_ok.induct) auto
  show "tail_clean B' xs = tail_clean B xs"
    using assms by (induction B xs rule: tail_clean.induct) auto
  show "live_ptrs B' xs = live_ptrs B xs"
    using assms by (auto simp add: live_ptrs_def)
qed

lemma tail_clean_append:
  "tail_clean B xs \<Longrightarrow> gaps_ok B xs \<Longrightarrow> tail_clean B ys \<Longrightarrow> tail_clean B (xs @ ys)"
proof (induction B xs rule: tail_clean.induct)
  case (1 B)
  then show ?case by simp
next
  case (2 B x)
  then show ?case by (cases ys) auto
next
  case (3 B x y xs)
  then show ?case by auto
qed

lemma live_ptrs_append: "live_ptrs B (xs @ ys) = live_ptrs B xs \<union> live_ptrs B ys"
  by (auto simp add: live_ptrs_def)

section \<open>circalloc keeps the state well formed\<close>

lemma dvd16_mod_N_B: "16 dvd x \<Longrightarrow> 16 dvd x mod N_B" for x :: int
  by (simp add: N_B_eq dvd_mod)

lemma alloc_success_span:
  assumes wf: "well_formed s bs" and ok: "size_ok sz" and al: "circalloc s sz = (Some p, s')"
  shows "span (buffer s) bs + rsize s sz < N_B"
proof -
  have v: "valid_state s" using wf by (simp add: well_formed_def)
  have "fst (circalloc s sz) \<noteq> None" using al by simp
  then have "L_B s + rsize s sz < N_B" using null_iff_no_room [OF v ok] by simp
  then show ?thesis using well_formed_L_B [OF wf] by simp
qed

lemma alloc_no_wrap:
  assumes wf: "well_formed s bs" and ok: "size_ok sz" and al: "circalloc s sz = (Some p, s')"
    and nw: "\<not> wraps s (block_size_of sz)"
  shows "well_formed s' (bs @ [uint (head s)]) \<and> p = uint (head s) + sizeof_hdr
       \<and> free (buffer s' (uint (head s))) = HDR_INUSE
       \<and> (\<forall>x\<in>set bs. buffer s' x = buffer s x) \<and> tail s' = tail s"
proof -
  define b h t B where "b = uint (block_size_of sz)" and "h = uint (head s)"
    and "t = uint (tail s)" and "B = buffer s"
  define B' where "B' = B(h := \<lparr>free = HDR_INUSE, len = block_size_of sz\<rparr>)"
  have v: "valid_state s" and ah: "16 dvd h" and at: "16 dvd t"
    and ch: "chain B t bs h" and sp: "span B bs < N_B"
    and go: "gaps_ok B bs" and tc: "tail_clean B bs"
    using wf by (simp_all add: well_formed_def B_def h_def t_def)
  have hb: "0 \<le> h" "h < N_B" and tb: "0 \<le> t" "t < N_B"
    using v by (simp_all add: valid_state_uint N_B_eq h_def t_def)
  have bb: "16 \<le> b" "16 dvd b"
    using size_ok_block_size [OF ok] by (simp_all add: b_def)
  have nz: "block_size_of sz \<noteq> 0" using bb by (auto simp add: b_def)
  have hv: "head s < BUFFSIZE" using v by (simp add: valid_state_def)
  have res: "p = h + sizeof_hdr"
    "s' = s\<lparr>buffer := B', head := (head s + block_size_of sz) mod BUFFSIZE\<rparr>"
    using circalloc_Some [OF hv al nz] nw by (simp_all add: h_def B'_def B_def)
  have rs: "rsize s sz = b"
    using nw wraps_uint [OF v, of "block_size_of sz"] by (auto simp add: rsize_def b_def)
  have fit: "span B bs + b < N_B"
    using alloc_success_span [OF wf ok al] rs by (simp add: B_def)
  have lb: "span B bs = (h - t) mod N_B"
    using well_formed_L_B [OF wf] by (simp add: L_B_def B_def h_def t_def)
  have inside: "h + b \<le> N_B"
  proof (cases "t \<le> h")
    case True
    then show ?thesis
      using nw wraps_uint [OF v, of "block_size_of sz"] by (simp add: b_def h_def t_def)
  next
    case False
    then have "(h - t) mod N_B = h - t + N_B" using hb tb by (simp add: mod_neg_wrap)
    then show ?thesis using fit lb tb by simp
  qed
  have fr: "\<And>x. x \<in> set bs \<Longrightarrow> B' x = B x"
    using chain_not_end [OF ch sp] by (auto simp add: B'_def)
  let ?h' = "(h + b) mod N_B"
  have okh: "block_ok B' h"
    using hb ah bb inside by (simp add: block_ok_def B'_def b_def)
  have lh: "uint (len (B' h)) = b" and fh: "free (B' h) = HDR_INUSE"
    by (simp_all add: B'_def b_def)
  have cb: "chain B' t bs h" using ch by (simp add: frame_eq(1) [OF fr])
  have c': "chain B' t (bs @ [h]) ?h'"
    using cb okh lh by (auto simp add: chain_append)
  have "span B' bs = span B bs" by (rule frame_eq(2) [OF fr])
  then have sp': "span B' (bs @ [h]) < N_B"
    using fit lh by simp
  have "gaps_ok B' bs" using go by (simp add: frame_eq(3) [OF fr])
  then have go': "gaps_ok B' (bs @ [h])"
    using fh by (intro gaps_ok_append) simp_all
  have "tail_clean B' bs" using tc by (simp add: frame_eq(4) [OF fr])
  then have tc': "tail_clean B' (bs @ [h])"
    using fh \<open>gaps_ok B' bs\<close> by (intro tail_clean_append) simp_all
  have uh: "uint ((head s + block_size_of sz) mod BUFFSIZE) = ?h'"
    by (simp add: uint_step h_def b_def)
  have h'b: "0 \<le> ?h'" "?h' < N_B" "16 dvd ?h'"
    using ah bb by (simp_all add: N_B_eq dvd16_mod_N_B [unfolded N_B_eq])
  have hw: "(head s + block_size_of sz) mod BUFFSIZE < BUFFSIZE"
    using h'b uh by (simp add: word_less_def N_B_def)
  have "well_formed s' (bs @ [h])"
    using v at c' sp' go' tc' h'b hw
    by (simp add: well_formed_def res valid_state_def uh t_def)
  then show ?thesis
    using res fr by (simp add: h_def B'_def B_def [symmetric])
qed


lemma alloc_wrap:
  assumes wf: "well_formed s bs" and ok: "size_ok sz" and al: "circalloc s sz = (Some p, s')"
    and w: "wraps s (block_size_of sz)"
  shows "well_formed s' (bs @ [uint (head s), 0]) \<and> p = sizeof_hdr
       \<and> free (buffer s' (uint (head s))) = HDR_GAP \<and> free (buffer s' 0) = HDR_INUSE
       \<and> (\<forall>x\<in>set bs. buffer s' x = buffer s x) \<and> tail s' = tail s"
proof -
  define b h t B where "b = uint (block_size_of sz)" and "h = uint (head s)"
    and "t = uint (tail s)" and "B = buffer s"
  define B' where "B' = B(h := \<lparr>free = HDR_GAP, len = BUFFSIZE - head s\<rparr>,
                          0 := \<lparr>free = HDR_INUSE, len = block_size_of sz\<rparr>)"
  have v: "valid_state s" and ah: "16 dvd h" and at: "16 dvd t"
    and ch: "chain B t bs h" and sp: "span B bs < N_B"
    and go: "gaps_ok B bs" and tc: "tail_clean B bs"
    using wf by (simp_all add: well_formed_def B_def h_def t_def)
  have hb: "0 \<le> h" "h < N_B" and tb: "0 \<le> t" "t < N_B"
    using v by (simp_all add: valid_state_uint N_B_eq h_def t_def)
  have bb: "16 \<le> b" "16 dvd b"
    using size_ok_block_size [OF ok] by (simp_all add: b_def)
  have nz: "block_size_of sz \<noteq> 0" using bb by (auto simp add: b_def)
  have hv: "head s < BUFFSIZE" using v by (simp add: valid_state_def)
  have res: "p = sizeof_hdr"
    "s' = s\<lparr>buffer := B', head := block_size_of sz mod BUFFSIZE\<rparr>"
    using circalloc_Some [OF hv al nz] w by (simp_all add: h_def B'_def B_def)
  have wu: "t \<le> h" "N_B - h < b"
    using w wraps_uint [OF v, of "block_size_of sz"] by (simp_all add: b_def h_def t_def)
  have rs: "rsize s sz = N_B - h + b"
    using wu by (simp add: rsize_def b_def h_def t_def)
  have "(h - t) mod N_B = h - t" using wu hb tb by (simp add: mod_pos_pos_trivial)
  then have lb: "span B bs = h - t"
    using well_formed_L_B [OF wf] by (simp add: L_B_def B_def h_def t_def)
  have bt: "b < t"
    using alloc_success_span [OF wf ok al] rs lb by (simp add: B_def)
  have h0: "h \<noteq> 0" using bt wu bb by simp
  have lo: "\<And>x. x \<in> set bs \<Longrightarrow> t \<le> x"
    using ch _ by (rule chain_no_wrap_lower) (use lb hb in simp)
  have fr: "\<And>x. x \<in> set bs \<Longrightarrow> B' x = B x"
  proof -
    fix x assume x: "x \<in> set bs"
    have "x \<noteq> h" using ch sp x by (rule chain_not_end)
    moreover have "x \<noteq> 0" using lo [OF x] bt bb by simp
    ultimately show "B' x = B x" by (simp add: B'_def)
  qed
  have lg: "uint (len (B' h)) = N_B - h" and fg: "free (B' h) = HDR_GAP"
    and l0: "uint (len (B' 0)) = b" and f0: "free (B' 0) = HDR_INUSE"
    using h0 hv by (simp_all add: B'_def b_def uint_BUFFSIZE_minus N_B_eq h_def)
  have okh: "block_ok B' h"
    using hb ah lg fg by (simp add: block_ok_def) (simp add: N_B_eq)
  have ok0: "block_ok B' 0"
    using bb bt tb l0 f0 by (simp add: block_ok_def)
  have bm: "b mod N_B = b" using bb bt tb by (simp add: mod_pos_pos_trivial)
  have cb: "chain B' t bs h" using ch by (simp add: frame_eq(1) [OF fr])
  have c': "chain B' t (bs @ [h, 0]) b"
    using cb okh ok0 lg l0 bm by (auto simp add: chain_append)
  have "span B' bs = span B bs" by (rule frame_eq(2) [OF fr])
  then have sp': "span B' (bs @ [h, 0]) < N_B"
    using lb lg l0 bt by simp
  have "gaps_ok B' bs" using go by (simp add: frame_eq(3) [OF fr])
  then have go': "gaps_ok B' (bs @ [h, 0])"
    using fg f0 by (intro gaps_ok_append) simp_all
  have "tail_clean B' bs" using tc by (simp add: frame_eq(4) [OF fr])
  then have tc': "tail_clean B' (bs @ [h, 0])"
    using fg f0 \<open>gaps_ok B' bs\<close> by (intro tail_clean_append) simp_all
  have "uint (block_size_of sz) < 2048" using bt tb by (simp add: b_def N_B_eq)
  then have hm: "block_size_of sz mod BUFFSIZE = block_size_of sz"
    by (rule small_mod_BUFFSIZE)
  have hw: "block_size_of sz < BUFFSIZE"
    using bt tb by (simp add: word_less_def N_B_def b_def)
  have "well_formed s' (bs @ [h, 0])"
    using v at c' sp' go' tc' bb hw
    by (simp add: well_formed_def res valid_state_def hm t_def b_def)
  then show ?thesis
    using res fr fg f0 by (simp add: h_def B_def [symmetric])
qed

section \<open>Sequences of calls keep caller and allocator consistent\<close>

lemma live_ptrs_Nil [simp]: "live_ptrs B [] = {}"
  by (simp add: live_ptrs_def)

lemma live_ptrs_single:
  "live_ptrs B [x] = (if free (B x) = HDR_INUSE then {x + sizeof_hdr} else {})"
  by (auto simp add: live_ptrs_def)

lemma live_ptrs_mark_free:
  "live_ptrs (mark_free B p) bs = live_ptrs B bs - {p}"
proof -
  have e: "\<And>x. (x = p - sizeof_hdr) = (x + sizeof_hdr = p)" by auto
  show ?thesis
    by (auto simp add: live_ptrs_def free_mark_free e)
qed

lemma live_ptrs_dead_prefix:
  "\<forall>x\<in>set pre. free (B x) = HDR_FREE \<or> free (B x) = HDR_GAP \<Longrightarrow> live_ptrs B pre = {}"
  by (auto simp add: live_ptrs_def)

lemma empty_state_consistent: "empty_state s \<Longrightarrow> consistent s {}"
  by (auto simp add: empty_state_def consistent_def well_formed_def valid_state_def N_B_eq
      intro!: exI [of _ "[]"])

lemma circalloc_None: "circalloc s sz = (None, s') \<Longrightarrow> s' = s"
  by (auto simp add: circalloc_def Let_def split: if_splits)

lemma alloc_consistent:
  assumes c: "consistent s L" and ok: "size_ok sz" and al: "circalloc s sz = (Some p, s')"
  shows "consistent s' (insert p L)"
proof -
  obtain bs where wf: "well_formed s bs" and L: "L = live_ptrs (buffer s) bs"
    using c by (auto simp add: consistent_def)
  show ?thesis
  proof (cases "wraps s (block_size_of sz)")
    case True
    note r = alloc_wrap [OF wf ok al True]
    have "live_ptrs (buffer s') bs = live_ptrs (buffer s) bs"
      using r by (intro frame_eq(5)) simp
    then have "live_ptrs (buffer s') (bs @ [uint (head s), 0]) = insert p L"
      using r L by (auto simp add: live_ptrs_append live_ptrs_def)
    then show ?thesis using r by (auto simp add: consistent_def)
  next
    case False
    note r = alloc_no_wrap [OF wf ok al False]
    have "live_ptrs (buffer s') bs = live_ptrs (buffer s) bs"
      using r by (intro frame_eq(5)) simp
    then have "live_ptrs (buffer s') (bs @ [uint (head s)]) = insert p L"
      using r L by (auto simp add: live_ptrs_append live_ptrs_single)
    then show ?thesis using r by (auto simp add: consistent_def)
  qed
qed

text \<open>What a valid call of \<open>circfree\<close> does to a well-formed state.\<close>

lemma free_retires:
  assumes wf: "well_formed s bs" and p: "p \<in> live_ptrs (buffer s) bs"
  shows "\<exists>pre post t'. bs = pre @ post
           \<and> circfree s p = Some (s\<lparr>buffer := mark_free (buffer s) p, tail := t'\<rparr>)
           \<and> uint t' = start_of post (uint (head s))
           \<and> uint t' = (uint (tail s) + span (buffer s) pre) mod N_B
           \<and> post = retire (mark_free (buffer s) p) bs
           \<and> (\<forall>x\<in>set pre. free (mark_free (buffer s) p x) = HDR_FREE
                            \<or> free (mark_free (buffer s) p x) = HDR_GAP)
           \<and> well_formed (s\<lparr>buffer := mark_free (buffer s) p, tail := t'\<rparr>) post
           \<and> live_ptrs (mark_free (buffer s) p) post = live_ptrs (buffer s) bs - {p}"
proof -
  define B' where "B' = mark_free (buffer s) p"
  obtain x where x: "x \<in> set bs" "free (buffer s x) = HDR_INUSE" "p = x + sizeof_hdr"
    using p by (auto simp add: live_ptrs_def)
  then have ne: "bs \<noteq> []" and g: "free (buffer s (p - sizeof_hdr)) \<noteq> HDR_GAP"
    by auto
  obtain t' where res: "circfree s p = Some (s\<lparr>buffer := B', tail := t'\<rparr>)"
    and t': "uint t' = start_of (retire B' bs) (uint (head s))"
    and wf': "well_formed (s\<lparr>buffer := B', tail := t'\<rparr>) (retire B' bs)"
    using circfree_walk [OF wf ne g] by (auto simp add: B'_def)
  obtain pre where pre: "bs = pre @ retire B' bs"
    and dead: "\<forall>x\<in>set pre. free (B' x) = HDR_FREE \<or> free (B' x) = HDR_GAP"
    using retire_suffix [of bs B'] by blast
  have ch: "chain (buffer s) (uint (tail s)) bs (uint (head s))" and v: "valid_state s"
    using wf by (simp_all add: well_formed_def)
  obtain m where m: "chain (buffer s) (uint (tail s)) pre m"
    and cr: "chain (buffer s) m (retire B' bs) (uint (head s))"
    using ch pre by (metis chain_append)
  have "m = uint t'" using chain_start [OF cr] t' by simp
  moreover have "m = (uint (tail s) + span (buffer s) pre) mod N_B"
    using m v by (intro chain_end) (simp_all add: valid_state_uint N_B_eq)
  ultimately have adv: "uint t' = (uint (tail s) + span (buffer s) pre) mod N_B" by simp
  have "live_ptrs B' bs = live_ptrs B' (retire B' bs)"
    using live_ptrs_dead_prefix [OF dead] live_ptrs_append [of B' pre "retire B' bs"] pre
    by simp
  then have lp: "live_ptrs B' (retire B' bs) = live_ptrs (buffer s) bs - {p}"
    by (simp add: B'_def live_ptrs_mark_free)
  show ?thesis
    using pre res t' adv dead wf' lp unfolding B'_def by blast
qed

lemma free_consistent:
  assumes c: "consistent s L" and p: "p \<in> L"
  shows "\<exists>s'. circfree s p = Some s' \<and> consistent s' (L - {p})"
proof -
  obtain bs where wf: "well_formed s bs" and L: "L = live_ptrs (buffer s) bs"
    using c by (auto simp add: consistent_def)
  obtain post t' where "circfree s p = Some (s\<lparr>buffer := mark_free (buffer s) p, tail := t'\<rparr>)"
    and "well_formed (s\<lparr>buffer := mark_free (buffer s) p, tail := t'\<rparr>) post"
    and "live_ptrs (mark_free (buffer s) p) post = live_ptrs (buffer s) bs - {p}"
    using free_retires [OF wf] p L by blast
  then show ?thesis using L by (auto simp add: consistent_def)
qed

lemma exec_consistent:
  "consistent s L \<Longrightarrow>
   exec s L ops \<noteq> Hang \<and> (\<forall>s' L'. exec s L ops = Done s' L' \<longrightarrow> consistent s' L')"
proof (induction ops arbitrary: s L)
  case Nil
  then show ?case by simp
next
  case (Cons a ops)
  show ?case
  proof (cases a)
    case (Alloc sz)
    show ?thesis
    proof (cases "size_ok sz")
      case False
      then show ?thesis using Alloc by simp
    next
      case True
      obtain r s1 where al: "circalloc s sz = (r, s1)" by (cases "circalloc s sz")
      show ?thesis
      proof (cases r)
        case None
        then have "s1 = s" using al circalloc_None by blast
        then show ?thesis using Cons.IH [OF Cons.prems] Alloc True al None by simp
      next
        case (Some p)
        then have "consistent s1 (insert p L)"
          using alloc_consistent [OF Cons.prems True] al by simp
        then show ?thesis using Cons.IH [of s1 "insert p L"] Alloc True al Some by simp
      qed
    qed
  next
    case (Free p)
    show ?thesis
    proof (cases "p \<in> L")
      case False
      then show ?thesis using Free by simp
    next
      case True
      obtain s1 where "circfree s p = Some s1" "consistent s1 (L - {p})"
        using free_consistent [OF Cons.prems True] by blast
      then show ?thesis using Cons.IH [of s1 "L - {p}"] Free True by simp
    qed
  qed
qed

lemma reachable_consistent:
  "empty_state s0 \<Longrightarrow> exec s0 {} ops = Done s L \<Longrightarrow> consistent s L"
  using exec_consistent [OF empty_state_consistent] by blast

lemmas run_defs = eval_defs init_state_def preload_def size_ok_def circfree_def case_free_tail_def
  loop_inuse loop_gap loop_free

lemma tail_clean_live: "bs \<noteq> [] \<Longrightarrow> tail_clean B bs \<Longrightarrow> live_ptrs B bs \<noteq> {}"
  by (induction B bs rule: tail_clean.induct) (auto simp add: live_ptrs_def)

lemma well_formed_empty_iff:
  assumes "well_formed s bs"
  shows "head s = tail s \<longleftrightarrow> bs = []"
proof
  assume e: "head s = tail s"
  show "bs = []"
  proof (rule ccontr)
    assume ne: "bs \<noteq> []"
    have "uint (tail s) \<noteq> uint (head s)"
      using assms ne by (intro nonempty_chain_neq [of "buffer s" _ bs]) (simp_all add: well_formed_def)
    then show False using e by simp
  qed
next
  assume "bs = []"
  then have "uint (tail s) = uint (head s)" using assms by (simp add: well_formed_def)
  then show "head s = tail s" by (simp only: word_uint_eq_iff)
qed

lemma well_formed_live_iff:
  assumes "well_formed s bs"
  shows "bs = [] \<longleftrightarrow> live_ptrs (buffer s) bs = {}"
  using assms tail_clean_live [of bs "buffer s"] by (auto simp add: well_formed_def)

lemma span_zero_iff:
  assumes "well_formed s bs"
  shows "span (buffer s) bs = 0 \<longleftrightarrow> bs = []"
proof
  assume z: "span (buffer s) bs = 0"
  show "bs = []"
  proof (rule ccontr)
    assume "bs \<noteq> []"
    then have "0 < span (buffer s) bs"
      using assms by (intro chain_span_pos [of "buffer s" "uint (tail s)" bs "uint (head s)"])
        (simp_all add: well_formed_def)
    then show False using z by simp
  qed
qed simp

section \<open>Empty means head equals tail\<close>

text \<open>
  C6. In every state reached from an empty allocator by a valid sequence of calls, head
  and tail coincide exactly when no block is outstanding, exactly when the caller holds
  no pointer, and exactly when the held length is zero; an allocation whose reservation
  would use up the free space exactly is refused. In particular, with \<open>tail = 0x200\<close>
  and \<open>head = 0x190\<close>, \<open>circalloc(104)\<close> returns \<open>NULL\<close> and \<open>circalloc(88)\<close>
  succeeds, leaving the head at \<open>0x1F0\<close>; the witness reaches that state as test 6 does.
\<close>

theorem head_eq_tail_iff_empty:
  assumes "empty_state s0" and "exec s0 {} ops = Done s L"
  shows "\<exists>bs. well_formed s bs \<and> L = live_ptrs (buffer s) bs \<and> L_B s = span (buffer s) bs
           \<and> (head s = tail s \<longleftrightarrow> bs = []) \<and> (head s = tail s \<longleftrightarrow> L = {})
           \<and> (head s = tail s \<longleftrightarrow> L_B s = 0)
           \<and> (\<forall>sz. size_ok sz \<and> L_B s + rsize s sz = N_B \<longrightarrow> fst (circalloc s sz) = None)
           \<and> (head s = 0x190 \<and> tail s = 0x200 \<longrightarrow>
                fst (circalloc s 104) = None
                \<and> fst (circalloc s 88) \<noteq> None \<and> head (snd (circalloc s 88)) = 0x1F0)"
proof -
  obtain bs where wf: "well_formed s bs" and L: "L = live_ptrs (buffer s) bs"
    using reachable_consistent [OF assms] by (auto simp add: consistent_def)
  have v: "valid_state s" using wf by (simp add: well_formed_def)
  have lb: "L_B s = span (buffer s) bs" using wf by (rule well_formed_L_B)
  have a: "head s = tail s \<longleftrightarrow> bs = []" using wf by (rule well_formed_empty_iff)
  have b: "head s = tail s \<longleftrightarrow> L = {}"
    using a well_formed_live_iff [OF wf] L by simp
  have c: "head s = tail s \<longleftrightarrow> L_B s = 0"
    using a span_zero_iff [OF wf] lb by simp
  have d: "\<forall>sz. size_ok sz \<and> L_B s + rsize s sz = N_B \<longrightarrow> fst (circalloc s sz) = None"
    using null_iff_no_room [OF v] by simp
  have e: "head s = 0x190 \<and> tail s = 0x200 \<longrightarrow>
           fst (circalloc s 104) = None
           \<and> fst (circalloc s 88) \<noteq> None \<and> head (snd (circalloc s 88)) = 0x1F0"
    by (simp add: eval_defs)
  show ?thesis using wf L lb a b c d e by blast
qed

lemma test6_run:
  "(case exec (preload 0x200) {} [Alloc 1500, Alloc 250, Alloc 120] of
      Done s L \<Rightarrow> L = {520, 8, 280} \<and> head s = 0x190 \<and> tail s = 0x200 | _ \<Rightarrow> False)"
  by (auto simp add: run_defs)

text \<open>The theorem at the state of test 6 before the fourth allocation.\<close>

theorem head_eq_tail_iff_empty_witness:
  "empty_state (preload 0x200)
   \<and> (case exec (preload 0x200) {} [Alloc 1500, Alloc 250, Alloc 120] of
        Done s L \<Rightarrow> head s = 0x190 \<and> tail s = 0x200 \<and> L \<noteq> {}
                    \<and> fst (circalloc s 104) = None
                    \<and> fst (circalloc s 88) \<noteq> None \<and> head (snd (circalloc s 88)) = 0x1F0
      | _ \<Rightarrow> False)"
proof -
  have e: "empty_state (preload 0x200)"
    by (simp add: empty_state_def preload_def init_state_def BUFFSIZE_def)
  obtain s L where r: "exec (preload 0x200) {} [Alloc 1500, Alloc 250, Alloc 120] = Done s L"
    and h: "head s = 0x190" and t: "tail s = 0x200"
    using test6_run by (auto split: outcome.splits)
  obtain bs where i: "head s = tail s \<longleftrightarrow> L = {}"
    and x: "\<forall>sz. size_ok sz \<and> L_B s + rsize s sz = N_B \<longrightarrow> fst (circalloc s sz) = None"
    and y: "head s = 0x190 \<and> tail s = 0x200 \<longrightarrow>
            fst (circalloc s 104) = None
            \<and> fst (circalloc s 88) \<noteq> None \<and> head (snd (circalloc s 88)) = 0x1F0"
    using head_eq_tail_iff_empty [OF e r] by blast
  have "L \<noteq> {}" using i h t by auto
  moreover have "size_ok 104 \<and> L_B s + rsize s 104 = N_B"
    using h t by (simp add: size_ok_def L_B_def rsize_def N_B_def BUFFSIZE_def block_size_of_def)
  then have "fst (circalloc s 104) = None" using x by blast
  moreover have "fst (circalloc s 88) \<noteq> None \<and> head (snd (circalloc s 88)) = 0x1F0"
    using h t y by blast
  ultimately show ?thesis using e r h t by simp
qed

section \<open>Freeing everything empties the allocator\<close>

text \<open>
  C9. Starting from an empty allocator, no valid sequence of calls makes \<open>circfree\<close>
  hang, and whenever every pointer that was returned has been freed again, in any order,
  the allocator is empty: head equals tail and the held length is zero. The tail need not
  be back at 0: in the witness (test 3, the blocks freed in reverse order) it ends at
  \<open>0x430\<close>.
\<close>

theorem round_trip:
  assumes "empty_state s0"
  shows "exec s0 {} ops \<noteq> Hang
       \<and> (\<forall>s. exec s0 {} ops = Done s {} \<longrightarrow> head s = tail s \<and> L_B s = 0)"
proof -
  have c: "consistent s0 {}" using assms by (rule empty_state_consistent)
  have nh: "exec s0 {} ops \<noteq> Hang" using exec_consistent [OF c] by blast
  have "head s = tail s \<and> L_B s = 0" if r: "exec s0 {} ops = Done s {}" for s
  proof -
    obtain bs where wf: "well_formed s bs" and L: "live_ptrs (buffer s) bs = {}"
      using reachable_consistent [OF assms r] by (auto simp add: consistent_def)
    have "bs = []" using well_formed_live_iff [OF wf] L by simp
    then show ?thesis
      using well_formed_empty_iff [OF wf] well_formed_L_B [OF wf] by simp
  qed
  then show ?thesis using nh by blast
qed

lemma test3_run:
  "(case exec init_state {} [Alloc 10, Alloc 8, Alloc 1001, Free 56, Free 40, Free 8] of
      Done s L \<Rightarrow> L = {} \<and> tail s = 0x430 | _ \<Rightarrow> False)"
  by (auto simp add: run_defs)

text \<open>The theorem at test 3: three allocations, freed in reverse order.\<close>

theorem round_trip_witness:
  "empty_state init_state
   \<and> (case exec init_state {} [Alloc 10, Alloc 8, Alloc 1001, Free 56, Free 40, Free 8] of
        Done s L \<Rightarrow> L = {} \<and> head s = tail s \<and> L_B s = 0 \<and> tail s = 0x430
      | _ \<Rightarrow> False)"
proof -
  have e: "empty_state init_state"
    by (simp add: empty_state_def init_state_def BUFFSIZE_def)
  obtain s where r: "exec init_state {} [Alloc 10, Alloc 8, Alloc 1001, Free 56, Free 40, Free 8] = Done s {}"
    and t: "tail s = 0x430"
    using test3_run by (auto split: outcome.splits)
  have "head s = tail s \<and> L_B s = 0"
    using round_trip [OF e, of "[Alloc 10, Alloc 8, Alloc 1001, Free 56, Free 40, Free 8]"] r
    by blast
  then show ?thesis using e r t by simp
qed

lemma retire_tail_clean_id: "tail_clean B bs \<Longrightarrow> retire B bs = bs"
  by (induction B bs rule: tail_clean.induct) auto

lemma tail_block_first:
  assumes "chain (buffer s) (uint (tail s)) (x # xs) e"
  shows "if free (buffer s x) = HDR_GAP
         then (case xs of [] \<Rightarrow> True | y # _ \<Rightarrow> tail_block s = y)
         else tail_block s = x"
  using assms by (cases xs) (auto simp add: tail_block_def)

lemma middle_keeps_tail_clean:
  assumes wf: "well_formed s bs" and p: "p \<in> live_ptrs (buffer s) bs"
    and mid: "p - sizeof_hdr \<noteq> tail_block s"
  shows "tail_clean (mark_free (buffer s) p) bs"
proof -
  have ch: "chain (buffer s) (uint (tail s)) bs (uint (head s))"
    and tc: "tail_clean (buffer s) bs"
    using wf by (simp_all add: well_formed_def)
  have u: "free (buffer s (p - sizeof_hdr)) = HDR_INUSE"
    using p by (auto simp add: live_ptrs_def)
  show ?thesis
  proof (cases bs)
    case Nil
    then show ?thesis by simp
  next
    case (Cons x xs)
    note tb = tail_block_first [OF ch [unfolded Cons]]
    show ?thesis
    proof (cases xs)
      case Nil
      then show ?thesis using tc tb mid Cons by (auto simp add: free_mark_free)
    next
      case (Cons y ys)
      then show ?thesis using tc tb mid u \<open>bs = x # xs\<close>
        by (auto simp add: free_mark_free)
    qed
  qed
qed

section \<open>Freeing in the middle\<close>

text \<open>
  C7. In every state reached from an empty allocator by a valid sequence of calls, a
  valid \<open>circfree(p)\<close> of a block that is not the tail block changes only the free flag
  in the header of that block: head, tail and every other header stay as they are. Every
  valid \<open>circfree(p)\<close> returns; the blocks it retires are a prefix of the outstanding
  ones, all of them flagged free or gaps, and the tail then stands at the first block
  that is left, whose first block that is not a gap is in use: one walk takes the tail
  through all the consecutively freed blocks.
\<close>

theorem middle_free_frame:
  assumes "empty_state s0" and "exec s0 {} ops = Done s L" and "p \<in> L"
  shows "(p - sizeof_hdr \<noteq> tail_block s \<longrightarrow>
            circfree s p = Some (s\<lparr>buffer := mark_free (buffer s) p\<rparr>))
       \<and> (\<exists>bs pre post t'. well_formed s bs \<and> bs = pre @ post
             \<and> circfree s p = Some (s\<lparr>buffer := mark_free (buffer s) p, tail := t'\<rparr>)
             \<and> uint t' = start_of post (uint (head s))
             \<and> (\<forall>x\<in>set pre. free (mark_free (buffer s) p x) = HDR_FREE
                              \<or> free (mark_free (buffer s) p x) = HDR_GAP)
             \<and> tail_clean (mark_free (buffer s) p) post)"
proof -
  obtain bs where wf: "well_formed s bs" and L: "L = live_ptrs (buffer s) bs"
    using reachable_consistent [OF assms(1,2)] by (auto simp add: consistent_def)
  have pl: "p \<in> live_ptrs (buffer s) bs" using assms(3) L by simp
  obtain pre post t' where r: "bs = pre @ post"
    "circfree s p = Some (s\<lparr>buffer := mark_free (buffer s) p, tail := t'\<rparr>)"
    "uint t' = start_of post (uint (head s))"
    "post = retire (mark_free (buffer s) p) bs"
    "\<forall>x\<in>set pre. free (mark_free (buffer s) p x) = HDR_FREE
                  \<or> free (mark_free (buffer s) p x) = HDR_GAP"
    "well_formed (s\<lparr>buffer := mark_free (buffer s) p, tail := t'\<rparr>) post"
    using free_retires [OF wf pl] by blast
  have tc: "tail_clean (mark_free (buffer s) p) post"
    using r(6) by (simp add: well_formed_def)
  have mid: "circfree s p = Some (s\<lparr>buffer := mark_free (buffer s) p\<rparr>)"
    if m: "p - sizeof_hdr \<noteq> tail_block s"
  proof -
    have "post = bs"
      using middle_keeps_tail_clean [OF wf pl m] r(4) by (simp add: retire_tail_clean_id)
    moreover have "uint (tail s) = start_of bs (uint (head s))"
      using wf by (intro chain_start [of "buffer s"]) (simp add: well_formed_def)
    ultimately have "uint t' = uint (tail s)" using r(3) by simp
    then have "t' = tail s" by (simp only: word_uint_eq_iff)
    then show ?thesis using r(2) by simp
  qed
  show ?thesis using mid wf r(1,2,3,5) tc by blast
qed

lemma test2_run:
  "(case exec init_state {} [Alloc 10, Alloc 8, Alloc 1001] of
      Done s L \<Rightarrow> L = {56, 40, 8} \<and> head s = 0x430 \<and> tail s = 0
                  \<and> free (buffer s 0) = HDR_INUSE
                  \<and> (case circfree s 40 of None \<Rightarrow> False
                       | Some s' \<Rightarrow> tail s' = 0 \<and> head s' = 0x430
                           \<and> (case circfree s' 8 of None \<Rightarrow> False | Some s'' \<Rightarrow> tail s'' = 0x30))
    | _ \<Rightarrow> False)"
  by (auto simp add: run_defs)

text \<open>
  The theorem at test 2: after three allocations the second block is freed first, which
  leaves the tail at 0; freeing the first block then takes the tail to \<open>0x30\<close>.
\<close>

theorem middle_free_frame_witness:
  "empty_state init_state
   \<and> (case exec init_state {} [Alloc 10, Alloc 8, Alloc 1001] of
        Done s L \<Rightarrow> 40 \<in> L \<and> 40 - sizeof_hdr \<noteq> tail_block s
                    \<and> circfree s 40 = Some (s\<lparr>buffer := mark_free (buffer s) 40\<rparr>)
                    \<and> (case circfree s 40 of None \<Rightarrow> False
                         | Some s' \<Rightarrow> tail s' = 0
                           \<and> (case circfree s' 8 of None \<Rightarrow> False | Some s'' \<Rightarrow> tail s'' = 0x30))
      | _ \<Rightarrow> False)"
proof -
  have e: "empty_state init_state"
    by (simp add: empty_state_def init_state_def BUFFSIZE_def)
  obtain s L where r: "exec init_state {} [Alloc 10, Alloc 8, Alloc 1001] = Done s L"
    and L: "L = {56, 40, 8}" and t: "tail s = 0" and f: "free (buffer s 0) = HDR_INUSE"
    and c: "(case circfree s 40 of None \<Rightarrow> False
             | Some s' \<Rightarrow> tail s' = 0 \<and> head s' = 0x430
                 \<and> (case circfree s' 8 of None \<Rightarrow> False | Some s'' \<Rightarrow> tail s'' = 0x30))"
    using test2_run by (auto split: outcome.splits)
  have p: "40 \<in> L" using L by simp
  have m: "40 - sizeof_hdr \<noteq> tail_block s"
    using t f by (simp add: tail_block_def sizeof_hdr_def)
  have "circfree s 40 = Some (s\<lparr>buffer := mark_free (buffer s) 40\<rparr>)"
    using middle_free_frame [OF e r p] m by blast
  then show ?thesis using e r p m c by (auto split: option.splits)
qed

section \<open>Alignment of the head and uniqueness of the chain\<close>

lemma dvd16_uint_add: "16 dvd uint a \<Longrightarrow> 16 dvd uint b \<Longrightarrow> 16 dvd uint (a + b)" for a b :: u32
  by (simp add: uint_add32 dvd_mod)

lemma dvd16_uint_sub: "16 dvd uint a \<Longrightarrow> 16 dvd uint b \<Longrightarrow> 16 dvd uint (a - b)" for a b :: u32
  by (simp add: uint_word_ariths dvd_mod)

lemma dvd16_uint_mod_BUFFSIZE: "16 dvd uint a \<Longrightarrow> 16 dvd uint (a mod BUFFSIZE)"
  by (simp add: uint_mod_BUFFSIZE dvd_mod)

lemma dvd16_block_size_of: "16 dvd uint (block_size_of sz)"
  by (simp add: uint_block_size_of dvd_mod)

lemma circalloc_head_aligned:
  assumes "16 dvd uint (head s)"
  shows "16 dvd uint (head (snd (circalloc s sz)))"
proof -
  have B: "16 dvd uint BUFFSIZE" by (simp add: uint_BUFFSIZE)
  have r: "16 dvd uint (BUFFSIZE - head s)" using B assms by (rule dvd16_uint_sub)
  note b = dvd16_block_size_of [of sz]
  show ?thesis
    using assms r b
    by (auto simp add: circalloc_def circallocblock_def Let_def
        intro!: dvd16_uint_mod_BUFFSIZE dvd16_uint_add)
qed

lemma chain_unique:
  "chain B a xs e \<Longrightarrow> chain B a ys e \<Longrightarrow> span B xs < N_B \<Longrightarrow> span B ys < N_B \<Longrightarrow> xs = ys"
proof (induction xs arbitrary: a ys)
  case Nil
  show ?case
  proof (cases ys)
    case (Cons y ys')
    then have "a \<noteq> e" using Nil.prems by (intro nonempty_chain_neq [of B a ys e]) auto
    then show ?thesis using Nil.prems by simp
  qed simp
next
  case (Cons x xs)
  show ?case
  proof (cases ys)
    case Nil
    have "a \<noteq> e" using Cons.prems by (intro nonempty_chain_neq [of B a "x # xs" e]) auto
    then show ?thesis using Cons.prems Nil by simp
  next
    case (Cons y ys')
    have pos: "0 < uint (len (B x))" using Cons.prems(1) by (auto simp add: block_ok_def)
    have "xs = ys'"
      using Cons.prems pos \<open>ys = y # ys'\<close>
      by (intro Cons.IH [of "(x + uint (len (B x))) mod N_B"]) auto
    then show ?thesis using Cons.prems \<open>ys = y # ys'\<close> by simp
  qed
qed

lemma well_formed_unique: "well_formed s bs \<Longrightarrow> well_formed s bs' \<Longrightarrow> bs = bs'"
  by (rule chain_unique [of "buffer s" "uint (tail s)" _ "uint (head s)"])
     (simp_all add: well_formed_def)

lemma circalloc_tail: "tail (snd (circalloc s sz)) = tail s"
  by (simp add: circalloc_def circallocblock_def Let_def)

section \<open>The tail only advances\<close>

text \<open>
  C8. In every state reached from an empty allocator by a valid sequence of calls,
  \<open>circalloc\<close> leaves the tail where it is, and a valid \<open>circfree(p)\<close> moves it forward,
  modulo the buffer size, by the lengths of the blocks it retires. These blocks are a
  prefix of the outstanding ones and each of them is flagged free or is a gap; every
  pointer the caller still holds belongs to a block that is left, so the tail never passes
  a block that has not been freed. Freeing a block that is not the tail block does not
  move the tail.
\<close>

theorem tail_only_advances:
  assumes "empty_state s0" and "exec s0 {} ops = Done s L"
  shows "(\<forall>sz. tail (snd (circalloc s sz)) = tail s)
       \<and> (\<forall>p\<in>L. \<exists>bs pre post s'. well_formed s bs \<and> bs = pre @ post
             \<and> circfree s p = Some s' \<and> head s' = head s
             \<and> uint (tail s') = (uint (tail s) + span (buffer s) pre) mod N_B
             \<and> (\<forall>x\<in>set pre. free (buffer s' x) = HDR_FREE \<or> free (buffer s' x) = HDR_GAP)
             \<and> well_formed s' post \<and> live_ptrs (buffer s') post = L - {p}
             \<and> (p - sizeof_hdr \<noteq> tail_block s \<longrightarrow> tail s' = tail s))"
proof -
  obtain bs where wf: "well_formed s bs" and L: "L = live_ptrs (buffer s) bs"
    using reachable_consistent [OF assms] by (auto simp add: consistent_def)
  have "\<exists>bs pre post s'. well_formed s bs \<and> bs = pre @ post
             \<and> circfree s p = Some s' \<and> head s' = head s
             \<and> uint (tail s') = (uint (tail s) + span (buffer s) pre) mod N_B
             \<and> (\<forall>x\<in>set pre. free (buffer s' x) = HDR_FREE \<or> free (buffer s' x) = HDR_GAP)
             \<and> well_formed s' post \<and> live_ptrs (buffer s') post = L - {p}
             \<and> (p - sizeof_hdr \<noteq> tail_block s \<longrightarrow> tail s' = tail s)"
    if p: "p \<in> L" for p
  proof -
    have pl: "p \<in> live_ptrs (buffer s) bs" using p L by simp
    define B' where "B' = mark_free (buffer s) p"
    obtain pre post t' where r: "bs = pre @ post"
      "circfree s p = Some (s\<lparr>buffer := B', tail := t'\<rparr>)"
      "uint t' = start_of post (uint (head s))"
      "uint t' = (uint (tail s) + span (buffer s) pre) mod N_B"
      "post = retire B' bs"
      "\<forall>x\<in>set pre. free (B' x) = HDR_FREE \<or> free (B' x) = HDR_GAP"
      "well_formed (s\<lparr>buffer := B', tail := t'\<rparr>) post"
      "live_ptrs B' post = live_ptrs (buffer s) bs - {p}"
      using free_retires [OF wf pl] unfolding B'_def by blast
    let ?s' = "s\<lparr>buffer := B', tail := t'\<rparr>"
    have mid: "p - sizeof_hdr \<noteq> tail_block s \<longrightarrow> tail ?s' = tail s"
    proof
      assume m: "p - sizeof_hdr \<noteq> tail_block s"
      have "post = bs"
        using middle_keeps_tail_clean [OF wf pl m] r(5) by (simp add: retire_tail_clean_id B'_def)
      moreover have "uint (tail s) = start_of bs (uint (head s))"
        using wf by (intro chain_start [of "buffer s"]) (simp add: well_formed_def)
      ultimately have "uint t' = uint (tail s)" using r(3) by simp
      then have "t' = tail s" by (simp only: word_uint_eq_iff)
      then show "tail ?s' = tail s" by simp
    qed
    have "well_formed s bs \<and> bs = pre @ post
             \<and> circfree s p = Some ?s' \<and> head ?s' = head s
             \<and> uint (tail ?s') = (uint (tail s) + span (buffer s) pre) mod N_B
             \<and> (\<forall>x\<in>set pre. free (buffer ?s' x) = HDR_FREE \<or> free (buffer ?s' x) = HDR_GAP)
             \<and> well_formed ?s' post \<and> live_ptrs (buffer ?s') post = L - {p}
             \<and> (p - sizeof_hdr \<noteq> tail_block s \<longrightarrow> tail ?s' = tail s)"
      using wf r(1,2,4,6,7,8) mid L by simp
    then show ?thesis by blast
  qed
  then show ?thesis using circalloc_tail by blast
qed

lemma test1_run:
  "(case exec init_state {} [Alloc 10, Alloc 8, Alloc 1001] of
      Done s L \<Rightarrow> L = {56, 40, 8} \<and> tail s = 0
                  \<and> (case circfree s 8 of None \<Rightarrow> False | Some s' \<Rightarrow> tail s' = 0x20)
    | _ \<Rightarrow> False)"
  by (auto simp add: run_defs)

text \<open>
  The theorem at test 1: after three allocations, freeing the first block moves the tail
  from 0 to \<open>0x20\<close>.
\<close>

theorem tail_only_advances_witness:
  "empty_state init_state
   \<and> (case exec init_state {} [Alloc 10, Alloc 8, Alloc 1001] of
        Done s L \<Rightarrow> 8 \<in> L \<and> tail s = 0 \<and> tail (snd (circalloc s 20)) = tail s
          \<and> (\<exists>bs pre post s'. well_formed s bs \<and> bs = pre @ post
                \<and> circfree s 8 = Some s' \<and> head s' = head s \<and> tail s' = 0x20
                \<and> uint (tail s') = (uint (tail s) + span (buffer s) pre) mod N_B
                \<and> (\<forall>x\<in>set pre. free (buffer s' x) = HDR_FREE \<or> free (buffer s' x) = HDR_GAP)
                \<and> well_formed s' post \<and> live_ptrs (buffer s') post = L - {8})
      | _ \<Rightarrow> False)"
proof -
  have e: "empty_state init_state"
    by (simp add: empty_state_def init_state_def BUFFSIZE_def)
  obtain s L where r: "exec init_state {} [Alloc 10, Alloc 8, Alloc 1001] = Done s L"
    and L: "L = {56, 40, 8}" and t: "tail s = 0"
    and c: "(case circfree s 8 of None \<Rightarrow> False | Some s' \<Rightarrow> tail s' = 0x20)"
    using test1_run by (auto split: outcome.splits)
  have p: "8 \<in> L" using L by simp
  note th = tail_only_advances [OF e r]
  have a: "tail (snd (circalloc s 20)) = tail s" using th by blast
  obtain bs pre post s' where f: "well_formed s bs" "bs = pre @ post"
    "circfree s 8 = Some s'" "head s' = head s"
    "uint (tail s') = (uint (tail s) + span (buffer s) pre) mod N_B"
    "\<forall>x\<in>set pre. free (buffer s' x) = HDR_FREE \<or> free (buffer s' x) = HDR_GAP"
    "well_formed s' post" "live_ptrs (buffer s') post = L - {8}"
    using th p by blast
  have "tail s' = 0x20" using c f(3) by simp
  then have "\<exists>bs pre post s'. well_formed s bs \<and> bs = pre @ post
                \<and> circfree s 8 = Some s' \<and> head s' = head s \<and> tail s' = 0x20
                \<and> uint (tail s') = (uint (tail s) + span (buffer s) pre) mod N_B
                \<and> (\<forall>x\<in>set pre. free (buffer s' x) = HDR_FREE \<or> free (buffer s' x) = HDR_GAP)
                \<and> well_formed s' post \<and> live_ptrs (buffer s') post = L - {8}"
    using f by blast
  then show ?thesis using e r p t a by simp
qed

section \<open>Alignment\<close>

text \<open>
  C10. In every state reached by a valid sequence of calls from an empty allocator whose
  head and tail are a multiple of 16, head and tail are multiples of 16 and the head
  after one more \<open>circalloc\<close> of any size is again a multiple of 16, every
  outstanding block, real or gap, starts at a multiple of 16 and has a length that is a
  positive multiple of 16, and every pointer the caller holds lies
  \<open>sizeof(struct hdr) = 8\<close> bytes past the start of such a block.
\<close>

theorem alignment_invariant:
  assumes "empty_state s0" and "exec s0 {} ops = Done s L"
  shows "16 dvd uint (head s) \<and> 16 dvd uint (tail s)
       \<and> (\<forall>sz. 16 dvd uint (head (snd (circalloc s sz))))
       \<and> (\<exists>bs. well_formed s bs
             \<and> (\<forall>x\<in>set bs. 16 dvd x \<and> 0 < uint (len (buffer s x)) \<and> 16 dvd uint (len (buffer s x)))
             \<and> (\<forall>p\<in>L. p - sizeof_hdr \<in> set bs \<and> 16 dvd (p - sizeof_hdr) \<and> p mod 16 = sizeof_hdr))"
proof -
  obtain bs where wf: "well_formed s bs" and L: "L = live_ptrs (buffer s) bs"
    using reachable_consistent [OF assms] by (auto simp add: consistent_def)
  have ch: "chain (buffer s) (uint (tail s)) bs (uint (head s))"
    using wf by (simp add: well_formed_def)
  have ok: "\<And>x. x \<in> set bs \<Longrightarrow> block_ok (buffer s) x"
    using ch by (rule chain_blocks_ok)
  have blocks: "\<forall>x\<in>set bs. 16 dvd x \<and> 0 < uint (len (buffer s x)) \<and> 16 dvd uint (len (buffer s x))"
    using ok by (simp add: block_ok_def)
  have ptrs: "\<forall>p\<in>L. p - sizeof_hdr \<in> set bs \<and> 16 dvd (p - sizeof_hdr) \<and> p mod 16 = sizeof_hdr"
  proof
    fix p assume "p \<in> L"
    then obtain x where x: "x \<in> set bs" "p = x + sizeof_hdr"
      using L by (auto simp add: live_ptrs_def)
    have d: "16 dvd x" using ok [OF x(1)] by (simp add: block_ok_def)
    then have "(x + 8) mod 16 = 8" by (auto simp add: mod_add_left_eq [symmetric, of x 16] dvd_eq_mod_eq_0)
    then show "p - sizeof_hdr \<in> set bs \<and> 16 dvd (p - sizeof_hdr) \<and> p mod 16 = sizeof_hdr"
      using x d by (simp add: sizeof_hdr_def)
  qed
  have ah: "16 dvd uint (head s)" using wf by (simp add: well_formed_def)
  then have al: "\<forall>sz. 16 dvd uint (head (snd (circalloc s sz)))"
    by (simp add: circalloc_head_aligned)
  show ?thesis using wf blocks ptrs al by (auto simp add: well_formed_def)
qed

lemma test5_run:
  "(case exec (preload 2000) {} [Alloc 1000, Alloc 20] of
      Done s L \<Rightarrow> L = {1016, 8} \<and> head s = 0x410 \<and> tail s = 2000 | _ \<Rightarrow> False)"
  by (auto simp add: run_defs)

text \<open>The theorem at test 5, where the first allocation inserts a gap block.\<close>

theorem alignment_invariant_witness:
  "empty_state (preload 2000)
   \<and> (case exec (preload 2000) {} [Alloc 1000, Alloc 20] of
        Done s L \<Rightarrow> L = {1016, 8} \<and> 16 dvd uint (head s) \<and> 16 dvd uint (tail s)
          \<and> (\<forall>sz. 16 dvd uint (head (snd (circalloc s sz))))
          \<and> (\<exists>bs. well_formed s bs
                \<and> (\<forall>x\<in>set bs. 16 dvd x \<and> 0 < uint (len (buffer s x)) \<and> 16 dvd uint (len (buffer s x)))
                \<and> (\<forall>p\<in>L. p - sizeof_hdr \<in> set bs \<and> 16 dvd (p - sizeof_hdr) \<and> p mod 16 = sizeof_hdr))
      | _ \<Rightarrow> False)"
proof -
  have e: "empty_state (preload 2000)"
    by (simp add: empty_state_def preload_def init_state_def BUFFSIZE_def)
  obtain s L where r: "exec (preload 2000) {} [Alloc 1000, Alloc 20] = Done s L"
    and L: "L = {1016, 8}"
    using test5_run by (auto split: outcome.splits)
  show ?thesis using e r L alignment_invariant [OF e r] by simp
qed

end
